theory Spec2Isabelle
  imports Complex_Main
begin

section \<open>Data model (src/types.ts)\<close>

text \<open>
  The conversation graph of ContextDojo: nodes and directed links, held in the
  application state and reconciled with the topic proposals of the extraction service.
  A node's \<open>description\<close> is the optional property that the detail panel of the mind map
  reads (\<open>selectedNode.description\<close>); an object without the property reads as \<open>None\<close>.
\<close>

datatype NodeType = Root | Concept | Entity | Action | Emotion

datatype Status = Active | Potential

record MindMapNode =
  id_n :: string
  label :: string
  group :: nat
  type :: NodeType
  status :: Status
  description :: "string option"

record MindMapLink =
  source :: string
  target :: string

text \<open>
  One element of \<open>GraphUpdate.nodes\<close>. The response schema of \<open>generateGraphUpdates\<close>
  requires the five properties \<open>label\<close>, \<open>type\<close>, \<open>status\<close>, \<open>parent\<close> and
  \<open>description\<close>, so a proposal carries a description at run time.
\<close>

record GraphUpdateNode =
  label_u :: string
  type_u :: NodeType
  status_u :: Status
  parent_u :: string
  description_u :: string

text \<open>
  The part of \<open>DojoState\<close> that the graph engine reads and writes. The other fields
  (mode, current topic, conversation history, last guidance) are copied unchanged by the
  object spread of the state update.
\<close>

record DojoState =
  mindMapNodes :: "MindMapNode list"
  mindMapLinks :: "MindMapLink list"

definition INITIAL_NODES :: "MindMapNode list" where
  "INITIAL_NODES =
     [\<lparr>id_n = ''Context'', label = ''Context'', group = 1, type = Root, status = Active,
       description = None\<rparr>]"

definition INITIAL_STATE :: DojoState where
  "INITIAL_STATE = \<lparr>mindMapNodes = INITIAL_NODES, mindMapLinks = []\<rparr>"

section \<open>Merge (src/App.tsx, triggerGraphUpdate)\<close>

text \<open>
  A label is a string of bytes. \<open>String.prototype.toLowerCase\<close> is a built-in of the
  language and not code of the repository: the functions of the merge take it as their
  first argument \<open>toLowerCase\<close>, and every general statement below holds for each
  function on strings put in its place. \<open>asciiLowerCase\<close> lowers the letters A to Z and
  leaves every other character alone; it agrees with the built-in on strings of ASCII
  characters and stands for it in the concrete examples, whose labels are of that kind.
\<close>

definition asciiLowerChar :: "char \<Rightarrow> char" where
  "asciiLowerChar c =
     (let n = (of_char c :: nat) in if 65 \<le> n \<and> n \<le> 90 then char_of (n + 32) else c)"

definition asciiLowerCase :: "string \<Rightarrow> string" where
  "asciiLowerCase s = map asciiLowerChar s"

text \<open>\<open>Array.prototype.findIndex\<close>: the first index that satisfies the test, \<open>None\<close> for -1.\<close>

fun findIndex :: "('a \<Rightarrow> bool) \<Rightarrow> 'a list \<Rightarrow> nat option" where
  "findIndex P [] = None"
| "findIndex P (x # xs) = (if P x then Some 0 else map_option Suc (findIndex P xs))"

text \<open>
  The body of \<open>updates.nodes.forEach\<close>: one proposal \<open>n\<close> against the working copies
  \<open>nextNodes\<close> and \<open>nextLinks\<close>. The three local constants of the creating branch are
  \<open>newNode\<close>, \<open>parentNode\<close> and \<open>linkExists\<close>; the new node is pushed before its parent
  is looked up, so \<open>parentNode\<close> searches a list that already holds it.
\<close>

definition newNode :: "GraphUpdateNode \<Rightarrow> MindMapNode" where
  "newNode n =
     \<lparr>id_n = label_u n, label = label_u n, group = 2, type = type_u n, status = status_u n,
      description = None\<rparr>"

definition parentNode :: "(string \<Rightarrow> string) \<Rightarrow> GraphUpdateNode \<Rightarrow> MindMapNode list \<Rightarrow> MindMapNode option" where
  "parentNode toLowerCase n nextNodes =
     (case find (\<lambda>ex. toLowerCase (label ex) = toLowerCase (parent_u n)) nextNodes of
        Some p \<Rightarrow> Some p
      | None \<Rightarrow> find (\<lambda>ex. label ex = ''Context'') nextNodes)"

definition linkExists :: "MindMapNode \<Rightarrow> MindMapNode \<Rightarrow> MindMapLink list \<Rightarrow> bool" where
  "linkExists p nn nextLinks =
     list_ex (\<lambda>l. (source l = id_n p \<and> target l = id_n nn) \<or>
                   (source l = id_n nn \<and> target l = id_n p)) nextLinks"

definition mergeCandidate ::
  "(string \<Rightarrow> string) \<Rightarrow> GraphUpdateNode \<Rightarrow> MindMapNode list \<times> MindMapLink list \<Rightarrow> MindMapNode list \<times> MindMapLink list"
where
  "mergeCandidate toLowerCase n st =
     (case st of (nextNodes, nextLinks) \<Rightarrow>
        (case findIndex (\<lambda>ex. toLowerCase (label ex) = toLowerCase (label_u n)) nextNodes of
           Some existingNodeIndex \<Rightarrow>
             (let existingNode = nextNodes ! existingNodeIndex in
                if status existingNode = Potential \<and> status_u n = Active
                then (nextNodes[existingNodeIndex := existingNode\<lparr>status := Active\<rparr>], nextLinks)
                else (nextNodes, nextLinks))
         | None \<Rightarrow>
             (let nextNodes' = nextNodes @ [newNode n] in
                case parentNode toLowerCase n nextNodes' of
                  None \<Rightarrow> (nextNodes', nextLinks)
                | Some p \<Rightarrow>
                    if \<not> linkExists p (newNode n) nextLinks
                    then (nextNodes', nextLinks @ [\<lparr>source = id_n p, target = id_n (newNode n)\<rparr>])
                    else (nextNodes', nextLinks))))"

text \<open>The state updater passed to \<open>setDojoState\<close>, for the proposal list \<open>updates.nodes\<close>.\<close>

definition merge :: "(string \<Rightarrow> string) \<Rightarrow> GraphUpdateNode list \<Rightarrow> DojoState \<Rightarrow> DojoState" where
  "merge toLowerCase updates prev =
     (case fold (mergeCandidate toLowerCase) updates (mindMapNodes prev, mindMapLinks prev) of
        (nextNodes, nextLinks) \<Rightarrow> prev\<lparr>mindMapNodes := nextNodes, mindMapLinks := nextLinks\<rparr>)"

text \<open>
  \<open>triggerGraphUpdate\<close> after the extraction service has answered: the state is touched
  only when \<open>updates.nodes\<close> is present (\<open>Some\<close>) and not empty.
\<close>

definition triggerGraphUpdate ::
  "(string \<Rightarrow> string) \<Rightarrow> GraphUpdateNode list option \<Rightarrow> DojoState \<Rightarrow> DojoState" where
  "triggerGraphUpdate toLowerCase updates prev =
     (case updates of
        None \<Rightarrow> prev
      | Some ns \<Rightarrow> if length ns > 0 then merge toLowerCase ns prev else prev)"

text \<open>A session: the initial state followed by any number of graph updates.\<close>

definition session :: "(string \<Rightarrow> string) \<Rightarrow> GraphUpdateNode list option list \<Rightarrow> DojoState" where
  "session toLowerCase us = foldl (\<lambda>st u. triggerGraphUpdate toLowerCase u st) INITIAL_STATE us"

section \<open>Depths (src/components/MindMap.tsx, computeDepths)\<close>

text \<open>
  A link holds the ids of its two ends; where the layout library has put a node object in
  their place, the code reads that object's id, which is the same string.

  \<open>adj\<close> and \<open>depths\<close> are plain objects that start from the literal \<open>{}\<close>, so a read
  \<open>obj[k]\<close> answers with the object's own entry when it has one and otherwise with what
  it inherits from \<open>Object.prototype\<close>. The names below are the members of that
  prototype; each is a function (for \<open>__proto__\<close>, the prototype object itself): truthy,
  not nullish, neither an array nor a number. \<open>getProperty own k\<close> is the read of \<open>k\<close>
  from an object whose own entry for \<open>k\<close> is \<open>own\<close>.
\<close>

datatype error = TypeError

definition objectPrototypeNames :: "string list" where
  "objectPrototypeNames =
     [''constructor'', ''hasOwnProperty'', ''isPrototypeOf'', ''propertyIsEnumerable'',
      ''toLocaleString'', ''toString'', ''valueOf'', ''__proto__'',
      ''__defineGetter__'', ''__defineSetter__'', ''__lookupGetter__'', ''__lookupSetter__'']"

datatype 'a property = Own 'a | Inherited | Undefined

definition getProperty :: "'a option \<Rightarrow> string \<Rightarrow> 'a property" where
  "getProperty own k =
     (case own of
        Some v \<Rightarrow> Own v
      | None \<Rightarrow> if k \<in> set objectPrototypeNames then Inherited else Undefined)"

text \<open>
  The adjacency object is kept as an association list in insertion order. One pass of
  \<open>linkList.forEach\<close>: \<open>if (!adj[s]) adj[s] = []; adj[s].push(t)\<close>. An inherited member is
  truthy, so no array is stored for it, and it has no \<open>push\<close>: the call throws.
\<close>

definition addLink ::
  "MindMapLink \<Rightarrow> (string \<times> string list) list \<Rightarrow> error + (string \<times> string list) list"
where
  "addLink l adj =
     (let s = source l; t = target l in
        case getProperty (map_of adj s) s of
          Undefined \<Rightarrow> Inr (adj @ [(s, [t])])
        | Own ts \<Rightarrow> Inr (map (\<lambda>(k, ts). if k = s then (k, ts @ [t]) else (k, ts)) adj)
        | Inherited \<Rightarrow> Inl TypeError)"

fun addLinks ::
  "MindMapLink list \<Rightarrow> (string \<times> string list) list \<Rightarrow> error + (string \<times> string list) list"
where
  "addLinks [] adj = Inr adj"
| "addLinks (l # ls) adj =
     (case addLink l adj of Inl e \<Rightarrow> Inl e | Inr adj' \<Rightarrow> addLinks ls adj')"

text \<open>
  \<open>depths\<close> is a finite map of own entries and \<open>visited\<close> a set. The assignment
  \<open>depths[childId] = d + 1\<close> stores an own entry, except under the name \<open>__proto__\<close>,
  where assigning a number changes nothing.
\<close>

definition setDepth :: "(string \<rightharpoonup> nat) \<Rightarrow> string \<Rightarrow> nat \<Rightarrow> (string \<rightharpoonup> nat)" where
  "setDepth depths k v = (if k = ''__proto__'' then depths else depths(k \<mapsto> v))"

definition visitChild ::
  "nat \<Rightarrow> string \<Rightarrow> (string \<times> nat) list \<times> (string \<rightharpoonup> nat) \<times> string set
     \<Rightarrow> (string \<times> nat) list \<times> (string \<rightharpoonup> nat) \<times> string set"
where
  "visitChild d childId st =
     (case st of (queue, depths, visited) \<Rightarrow>
        if childId \<notin> visited
        then (queue @ [(childId, d + 1)], setDepth depths childId (d + 1), insert childId visited)
        else (queue, depths, visited))"

definition adjTargets :: "(string \<times> string list) list \<Rightarrow> string set" where
  "adjTargets adj = (\<Union>e \<in> set adj. set (snd e))"

text \<open>
  The \<open>while\<close> loop. \<open>if (adj[id]) adj[id].forEach(...)\<close>: an own entry is the array of
  children; nothing is done when the read is undefined; an inherited member passes the
  test and has no \<open>forEach\<close>, so the call throws.
\<close>

function bfsLoop ::
  "(string \<times> string list) list \<Rightarrow> (string \<times> nat) list \<Rightarrow> (string \<rightharpoonup> nat) \<Rightarrow> string set \<Rightarrow> nat
     \<Rightarrow> error + (string \<rightharpoonup> nat) \<times> nat"
where
  "bfsLoop adj [] depths visited maxDepth = Inr (depths, maxDepth)"
| "bfsLoop adj ((i, d) # queue) depths visited maxDepth =
     (case getProperty (map_of adj i) i of
        Own cs \<Rightarrow>
          (case fold (visitChild d) cs (queue, depths, visited) of
             (queue', depths', visited') \<Rightarrow> bfsLoop adj queue' depths' visited' (max maxDepth d))
      | Inherited \<Rightarrow> Inl TypeError
      | Undefined \<Rightarrow> bfsLoop adj queue depths visited (max maxDepth d))"
  by pat_completeness auto

text \<open>
  The loop ends: every pass takes one entry off the queue, and an entry is added only for
  a child that was not visited before, of which the adjacency object has finitely many.
\<close>

lemma visitChild_apply:
  "visitChild d c (q, dp, vis) =
     (if c \<notin> vis then (q @ [(c, d + 1)], setDepth dp c (d + 1), insert c vis) else (q, dp, vis))"
  by (simp add: visitChild_def)

lemma fold_visitChild_measure:
  assumes "finite T" and "set cs \<subseteq> T"
    and "fold (visitChild d) cs (q, dp, vis) = (q', dp', vis')"
  shows "card (T - vis') + length q' = card (T - vis) + length q"
  using assms(2,3)
proof (induction cs arbitrary: q dp vis)
  case Nil
  then show ?case by simp
next
  case (Cons c cs)
  show ?case
  proof (cases "c \<in> vis")
    case True
    have f: "fold (visitChild d) cs (q, dp, vis) = (q', dp', vis')"
      using Cons.prems(2) True by (simp add: visitChild_apply)
    have s: "set cs \<subseteq> T" using Cons.prems(1) by simp
    show ?thesis using Cons.IH [OF s f] .
  next
    case False
    have f: "fold (visitChild d) cs (q @ [(c, d + 1)], setDepth dp c (d + 1), insert c vis)
               = (q', dp', vis')"
      using Cons.prems(2) False by (simp add: visitChild_apply)
    have s: "set cs \<subseteq> T" using Cons.prems(1) by simp
    have ih: "card (T - vis') + length q' = card (T - insert c vis) + length (q @ [(c, d + 1)])"
      using Cons.IH [OF s f] .
    have "finite (T - vis)" using assms(1) by simp
    moreover have "c \<in> T - vis" using Cons.prems(1) False by simp
    ultimately have "card (T - vis) = Suc (card (T - vis - {c}))"
      by (rule card.remove)
    moreover have "T - insert c vis = T - vis - {c}" by auto
    ultimately show ?thesis using ih by simp
  qed
qed

lemma map_of_adjTargets: "map_of adj i = Some cs \<Longrightarrow> set cs \<subseteq> adjTargets adj"
  by (auto simp: adjTargets_def dest!: map_of_SomeD)

lemma getProperty_Own: "getProperty own k = Own v \<longleftrightarrow> own = Some v"
  by (simp add: getProperty_def split: option.splits)

lemma bfsLoop_decreases:
  assumes "getProperty (map_of adj i) i = Own cs"
    and "fold (visitChild d) cs (queue, depths, visited) = (queue', depths', visited')"
  shows "card (adjTargets adj - visited') + length queue'
           < card (adjTargets adj - visited) + length ((i, d) # queue)"
proof -
  have "finite (adjTargets adj)" by (simp add: adjTargets_def)
  moreover have "set cs \<subseteq> adjTargets adj"
    using assms(1) by (simp add: getProperty_Own map_of_adjTargets)
  ultimately have "card (adjTargets adj - visited') + length queue'
                     = card (adjTargets adj - visited) + length queue"
    using assms(2) by (rule fold_visitChild_measure)
  then show ?thesis by simp
qed

termination bfsLoop
proof (relation "measure (\<lambda>(adj, queue, depths, visited, maxDepth).
                   card (adjTargets adj - visited) + length queue)", goal_cases)
  case 1
  show ?case by simp
next
  case (2 adj i d queue depths visited maxDepth cs queue' r depths' visited')
  have r: "r = (depths', visited')"
    using 2(3) by (rule sym)
  have "fold (visitChild d) cs (queue, depths, visited) = (queue', r)"
    using 2(2) by (rule sym)
  then have "fold (visitChild d) cs (queue, depths, visited) = (queue', depths', visited')"
    by (simp only: r)
  with 2(1) have "card (adjTargets adj - visited') + length queue'
           < card (adjTargets adj - visited) + length ((i, d) # queue)"
    by (rule bfsLoop_decreases)
  then show ?case by (simp only: in_measure prod.case)
next
  case (3 adj i d queue depths visited maxDepth)
  show ?case by simp
qed

declare bfsLoop.simps [simp del]

text \<open>
  \<open>computeDepths\<close> reads the links only; the node list is a parameter it never uses.
  The traversal starts from the root id with depth 0. A throw in either loop ends the
  call.
\<close>

definition computeDepths ::
  "MindMapNode list \<Rightarrow> MindMapLink list \<Rightarrow> error + (string \<rightharpoonup> nat) \<times> nat"
where
  "computeDepths nodeList linkList =
     (case addLinks linkList [] of
        Inl e \<Rightarrow> Inl e
      | Inr adj \<Rightarrow> bfsLoop adj [(''Context'', 0)] (setDepth Map.empty ''Context'' 0) {''Context''} 0)"

text \<open>
  The read \<open>depths[n.id] ?? 0\<close> of the layout: an own entry is the depth, an undefined
  read counts as depth 0, and an inherited member, not being nullish, is taken as it is.
\<close>

definition depthOf :: "(string \<rightharpoonup> nat) \<Rightarrow> string \<Rightarrow> nat property" where
  "depthOf depths i = (case getProperty (depths i) i of Undefined \<Rightarrow> Own 0 | p \<Rightarrow> p)"

section \<open>Path to the root (src/components/MindMap.tsx, getPathToRoot)\<close>

text \<open>
  The \<open>while\<close> loop with its flag and its iteration cap. The path is the \<open>Set\<close> in
  insertion order; the second component of the result is the final value of
  \<open>iterations\<close>, the number of passes through the loop body.
\<close>

function pathLoop ::
  "MindMapLink list \<Rightarrow> string list \<Rightarrow> string \<Rightarrow> bool \<Rightarrow> nat \<Rightarrow> string list \<times> nat"
where
  "pathLoop currentLinks path currentId foundParent iterations =
     (if foundParent \<and> iterations < 100
      then (case find (\<lambda>l. target l = currentId) currentLinks of
              Some parentLink \<Rightarrow>
                (let sourceId = source parentLink in
                   if sourceId \<notin> set path
                   then pathLoop currentLinks (path @ [sourceId]) sourceId True (iterations + 1)
                   else pathLoop currentLinks path currentId False (iterations + 1))
            | None \<Rightarrow> pathLoop currentLinks path currentId False (iterations + 1))
      else (path, iterations))"
  by pat_completeness auto

termination pathLoop
proof (relation "measure (\<lambda>(currentLinks, path, currentId, foundParent, iterations). 100 - iterations)", goal_cases)
  case 1
  show ?case by simp
next
  case (2 currentLinks path currentId foundParent iterations)
  then have "iterations < 100" by simp
  then show ?case by simp
next
  case (3 currentLinks path currentId foundParent iterations parentLink sourceId)
  then have "iterations < 100" by simp
  then show ?case by simp
next
  case (4 currentLinks path currentId foundParent iterations parentLink sourceId)
  then have "iterations < 100" by simp
  then show ?case by simp
qed

declare pathLoop.simps [simp del]

definition getPathToRoot :: "string \<Rightarrow> MindMapLink list \<Rightarrow> string list" where
  "getPathToRoot targetId currentLinks = fst (pathLoop currentLinks [targetId] targetId True 0)"

definition getPathToRootIterations :: "string \<Rightarrow> MindMapLink list \<Rightarrow> nat" where
  "getPathToRootIterations targetId currentLinks =
     snd (pathLoop currentLinks [targetId] targetId True 0)"

section \<open>Layout preparation (src/components/MindMap.tsx, simulationNodes)\<close>

text \<open>
  A coordinate or velocity is a number of the language: a real, or one of the three
  values that are not. A cached position has the properties \<open>x\<close>, \<open>y\<close>, \<open>vx\<close> and \<open>vy\<close>,
  here the fields \<open>pos_x\<close>, \<open>pos_y\<close>, \<open>pos_vx\<close> and \<open>pos_vy\<close>. The two values the code
  computes for a new node, half of an integer width and \<open>depth * 120 + 60\<close> for a depth
  that is a number, are exact in the code's number type; cached values are only copied.
\<close>

datatype number = Finite real | NaN | PosInfinity | NegInfinity

record Position =
  pos_x :: number
  pos_y :: number
  pos_vx :: number
  pos_vy :: number

definition Y_SPACING :: nat where
  "Y_SPACING = 120"

definition PADDING_TOP :: nat where
  "PADDING_TOP = 60"

text \<open>\<open>containerRef.current.clientWidth || 800\<close>: a width of 0 is replaced by 800.\<close>

definition containerWidth :: "nat \<Rightarrow> nat" where
  "containerWidth clientWidth = (if clientWidth = 0 then 800 else clientWidth)"

text \<open>
  \<open>(depth * Y_SPACING) + PADDING_TOP\<close>, where \<open>depth\<close> is what \<open>depths[n.id] ?? 0\<close> gave:
  arithmetic on anything but a number yields NaN.
\<close>

definition tierY :: "nat property \<Rightarrow> number" where
  "tierY depth =
     (case depth of Own d \<Rightarrow> Finite (real (d * Y_SPACING + PADDING_TOP)) | _ \<Rightarrow> NaN)"

text \<open>
  Each prepared node is the node itself (the object spread) together with its starting
  position; \<open>nodePositions\<close> is the position cache, a \<open>Map\<close> keyed by node id. The depths
  are computed first, and a throw there ends the effect before any node is prepared.
\<close>

definition simulationNodes ::
  "nat \<Rightarrow> (string \<rightharpoonup> Position) \<Rightarrow> MindMapNode list \<Rightarrow> MindMapLink list
     \<Rightarrow> error + (MindMapNode \<times> Position) list"
where
  "simulationNodes clientWidth nodePositions nodes links =
     (case computeDepths nodes links of
        Inl e \<Rightarrow> Inl e
      | Inr (depths, maxDepth) \<Rightarrow>
          Inr (map (\<lambda>n.
                 (let oldPos = nodePositions (id_n n);
                      depth = depthOf depths (id_n n)
                  in (n, \<lparr>pos_x = (case oldPos of Some p \<Rightarrow> pos_x p
                                      | None \<Rightarrow> Finite (real (containerWidth clientWidth) / 2)),
                          pos_y = (case oldPos of Some p \<Rightarrow> pos_y p | None \<Rightarrow> tierY depth),
                          pos_vx = (case oldPos of Some p \<Rightarrow> pos_vx p | None \<Rightarrow> Finite 0),
                          pos_vy = (case oldPos of Some p \<Rightarrow> pos_vy p | None \<Rightarrow> Finite 0)\<rparr>)))
               nodes))"

text \<open>
  The variant of the component in src/unnamed/part_002 prepares its nodes before it
  computes any depth: a node without a cached position starts ``centered top'', at
  height 50.
\<close>

definition simulationNodes_part002 ::
  "nat \<Rightarrow> (string \<rightharpoonup> Position) \<Rightarrow> MindMapNode list \<Rightarrow> (MindMapNode \<times> Position) list"
where
  "simulationNodes_part002 clientWidth nodePositions nodes =
     map (\<lambda>n.
            (let oldPos = nodePositions (id_n n)
             in (n, \<lparr>pos_x = (case oldPos of Some p \<Rightarrow> pos_x p
                                 | None \<Rightarrow> Finite (real (containerWidth clientWidth) / 2)),
                     pos_y = (case oldPos of Some p \<Rightarrow> pos_y p | None \<Rightarrow> Finite 50),
                     pos_vx = (case oldPos of Some p \<Rightarrow> pos_vx p | None \<Rightarrow> Finite 0),
                     pos_vy = (case oldPos of Some p \<Rightarrow> pos_vy p | None \<Rightarrow> Finite 0)\<rparr>)))
         nodes"

text \<open>The tier height of the variant, the target of its vertical force: \<open>60 + dDepth * 100\<close>.\<close>

definition tierY_part002 :: "nat \<Rightarrow> nat" where
  "tierY_part002 dDepth = 60 + dDepth * 100"

section \<open>Distance from the root\<close>

text \<open>
  \<open>reachIn ls n v\<close>: a directed path of exactly \<open>n\<close> links leads from the root id to
  \<open>v\<close>. The BFS distance of \<open>v\<close> is the least such \<open>n\<close>, and there is none when the root
  does not reach \<open>v\<close>.
\<close>

primrec reachIn :: "MindMapLink list \<Rightarrow> nat \<Rightarrow> string \<Rightarrow> bool" where
  "reachIn ls 0 v = (v = ''Context'')"
| "reachIn ls (Suc n) v = (\<exists>l\<in>set ls. target l = v \<and> reachIn ls n (source l))"

definition bfsDistance :: "MindMapLink list \<Rightarrow> string \<Rightarrow> nat option" where
  "bfsDistance ls v = (if \<exists>n. reachIn ls n v then Some (LEAST n. reachIn ls n v) else None)"

section \<open>Predicates of the proofs\<close>

text \<open>
  A proposal is settled in a state when some node carries its label (up to \<open>toLowerCase\<close>) and,
  for an active proposal, the first such node is active: merging it changes nothing.
\<close>

definition settled ::
  "(string \<Rightarrow> string) \<Rightarrow> GraphUpdateNode \<Rightarrow> MindMapNode list \<times> MindMapLink list \<Rightarrow> bool" where
  "settled toLowerCase c st =
     (\<exists>i. findIndex (\<lambda>ex. toLowerCase (label ex) = toLowerCase (label_u c)) (fst st) = Some i \<and>
          (status_u c = Active \<longrightarrow> status (fst st ! i) = Active))"


text \<open>
  \<open>promotedFrom ns ns'\<close>: the list \<open>ns'\<close> extends \<open>ns\<close>, and each node of \<open>ns\<close> is
  unchanged in \<open>ns'\<close> or promoted from potential to active. \<open>linksClosed\<close>: both ends
  of every link are ids of nodes.
\<close>

definition promotedFrom :: "MindMapNode list \<Rightarrow> MindMapNode list \<Rightarrow> bool" where
  "promotedFrom ns ns' =
     (length ns \<le> length ns' \<and>
      (\<forall>i<length ns. ns' ! i = ns ! i \<or>
          (status (ns ! i) = Potential \<and> ns' ! i = (ns ! i)\<lparr>status := Active\<rparr>)))"

definition linksClosed :: "MindMapNode list \<times> MindMapLink list \<Rightarrow> bool" where
  "linksClosed st =
     (\<forall>l\<in>set (snd st). source l \<in> id_n ` set (fst st) \<and> target l \<in> id_n ` set (fst st))"

text \<open>
  \<open>linkPath ls xs\<close>: consecutive ids of \<open>xs\<close> are joined by links, source first.
  \<open>linkRel\<close> is the link list as a relation, for acyclicity.
\<close>

fun linkPath :: "MindMapLink list \<Rightarrow> string list \<Rightarrow> bool" where
  "linkPath ls [] = True"
| "linkPath ls [v] = True"
| "linkPath ls (u # v # vs) = ((\<exists>l\<in>set ls. source l = u \<and> target l = v) \<and> linkPath ls (v # vs))"

definition linkRel :: "MindMapLink list \<Rightarrow> (string \<times> string) set" where
  "linkRel ls = (\<lambda>l. (source l, target l)) ` set ls"

text \<open>
  \<open>children adj u\<close> reads \<open>adj[u]\<close> with a missing entry as no children. \<open>bfsInv\<close> is
  the invariant of the traversal loop: queue entries carry the recorded depth of their
  id and are sorted, within one level of \<open>maxDepth\<close>; every recorded depth is the length
  of a path from the root; an id that has left the queue has all its children recorded,
  at most one level deeper; \<open>maxDepth\<close> is a recorded depth.
\<close>

definition children :: "(string \<times> string list) list \<Rightarrow> string \<Rightarrow> string list" where
  "children adj u = (case map_of adj u of None \<Rightarrow> [] | Some cs \<Rightarrow> cs)"

definition bfsInv ::
  "MindMapLink list \<Rightarrow> (string \<times> nat) list \<Rightarrow> (string \<rightharpoonup> nat) \<Rightarrow> nat \<Rightarrow> bool"
where
  "bfsInv ls q dp md =
     ((\<forall>e\<in>set q. dp (fst e) = Some (snd e) \<and> md \<le> snd e \<and> snd e \<le> md + 1) \<and>
      distinct (map fst q) \<and>
      sorted (map snd q) \<and>
      (\<forall>v k. dp v = Some k \<longrightarrow> reachIn ls k v \<and> k \<le> md + 1) \<and>
      (\<forall>u k. dp u = Some k \<longrightarrow> u \<notin> fst ` set q \<longrightarrow>
          k \<le> md \<and> (\<forall>l\<in>set ls. source l = u \<longrightarrow> (\<exists>j. dp (target l) = Some j \<and> j \<le> k + 1))) \<and>
      dp ''Context'' = Some 0 \<and>
      (\<exists>v. dp v = Some md))"

text \<open>\<open>safeLinks\<close>: no end of a link is a member name of \<open>Object.prototype\<close>.\<close>

definition safeLinks :: "MindMapLink list \<Rightarrow> bool" where
  "safeLinks ls =
     (\<forall>l\<in>set ls. source l \<notin> set objectPrototypeNames \<and> target l \<notin> set objectPrototypeNames)"

section \<open>Example states and proposals\<close>

definition travelPotential :: DojoState where
  "travelPotential =
     \<lparr>mindMapNodes = INITIAL_NODES @
        [\<lparr>id_n = ''Travel'', label = ''Travel'', group = 2, type = Concept, status = Potential,
          description = None\<rparr>],
      mindMapLinks = [\<lparr>source = ''Context'', target = ''Travel''\<rparr>]\<rparr>"

definition travelActive :: GraphUpdateNode where
  "travelActive = \<lparr>label_u = ''travel'', type_u = Concept, status_u = Active,
                    parent_u = ''Context'', description_u = ''Trip plans''\<rparr>"

definition travelSuggested :: GraphUpdateNode where
  "travelSuggested = \<lparr>label_u = ''Travel'', type_u = Concept, status_u = Potential,
                    parent_u = ''Context'', description_u = ''A trip''\<rparr>"

text \<open>
  A chain of links below the root, with two-letter ids ranked by their position, and a
  node with two parents.
\<close>

definition chainId :: "nat \<Rightarrow> string" where
  "chainId k = (if k = 0 then ''Context'' else [char_of (65 + k div 26), char_of (65 + k mod 26)])"

definition chainLinks :: "nat \<Rightarrow> MindMapLink list" where
  "chainLinks n = map (\<lambda>k. \<lparr>source = chainId k, target = chainId (Suc k)\<rparr>) [0..<n]"

definition chainRank :: "string \<Rightarrow> nat" where
  "chainRank s = (case s of [a, b] \<Rightarrow> (of_char a - 65) * 26 + (of_char b - 65) | _ \<Rightarrow> 0)"

definition twoParents :: "MindMapLink list" where
  "twoParents = [\<lparr>source = ''Food'', target = ''Recipes''\<rparr>,
                 \<lparr>source = ''Context'', target = ''Recipes''\<rparr>]"

text \<open>
  A proposal that names itself as parent, and the session that merges it after a first
  proposal: the node ``Food'' is linked to itself only, so the root does not reach it.
\<close>

definition foodOwnParent :: GraphUpdateNode where
  "foodOwnParent = \<lparr>label_u = ''Food'', type_u = Concept, status_u = Potential,
                      parent_u = ''food'', description_u = ''Meals''\<rparr>"

definition foodSession :: DojoState where
  "foodSession = session asciiLowerCase [Some [travelSuggested, foodOwnParent]]"

text \<open>A proposal named after a member of \<open>Object.prototype\<close>, and the session that merges it.\<close>

definition constructorProposal :: GraphUpdateNode where
  "constructorProposal = \<lparr>label_u = ''constructor'', type_u = Concept, status_u = Active,
                            parent_u = ''Context'', description_u = ''Object setup''\<rparr>"

definition constructorSession :: DojoState where
  "constructorSession = session asciiLowerCase [Some [constructorProposal]]"

text \<open>A position cache that holds the root only.\<close>

definition cachedContext :: "string \<rightharpoonup> Position" where
  "cachedContext =
     [''Context'' \<mapsto> \<lparr>pos_x = Finite 412, pos_y = Finite 61, pos_vx = Finite 3, pos_vy = Finite (-1)\<rparr>]"

section \<open>Properties of merge\<close>

subsection \<open>findIndex and the two branches of mergeCandidate\<close>


lemma findIndex_None_iff: "findIndex P xs = None \<longleftrightarrow> (\<forall>x\<in>set xs. \<not> P x)"
  by (induction xs) auto

lemma findIndex_SomeD:
  "findIndex P xs = Some i \<Longrightarrow> i < length xs \<and> P (xs ! i) \<and> (\<forall>j<i. \<not> P (xs ! j))"
proof (induction xs arbitrary: i)
  case Nil
  then show ?case by simp
next
  case (Cons a xs)
  show ?case
  proof (cases "P a")
    case True
    with Cons.prems show ?thesis by simp
  next
    case False
    with Cons.prems obtain k where k: "findIndex P xs = Some k" "i = Suc k"
      by auto
    from Cons.IH [OF k(1)] False k(2) show ?thesis
      by (auto simp: nth_Cons split: nat.splits)
  qed
qed

lemma findIndex_append_Some: "findIndex P xs = Some i \<Longrightarrow> findIndex P (xs @ ys) = Some i"
  by (induction xs arbitrary: i) (auto split: if_splits)

lemma findIndex_append_new:
  "findIndex P xs = None \<Longrightarrow> P y \<Longrightarrow> findIndex P (xs @ [y]) = Some (length xs)"
  by (induction xs) (auto split: if_splits)

lemma findIndex_map_cong: "map P xs = map P ys \<Longrightarrow> findIndex P xs = findIndex P ys"
proof (induction xs arbitrary: ys)
  case Nil
  then show ?case by simp
next
  case (Cons a xs)
  then obtain b bs where "ys = b # bs" by (cases ys) auto
  with Cons show ?case by auto
qed

lemma mergeCandidate_found:
  assumes "findIndex (\<lambda>ex. toLowerCase (label ex) = toLowerCase (label_u c)) ns = Some i"
  shows "mergeCandidate toLowerCase c (ns, ls) =
           (if status (ns ! i) = Potential \<and> status_u c = Active
            then ns[i := (ns ! i)\<lparr>status := Active\<rparr>] else ns, ls)"
  using assms by (simp add: mergeCandidate_def Let_def)

lemma mergeCandidate_new:
  assumes "findIndex (\<lambda>ex. toLowerCase (label ex) = toLowerCase (label_u c)) ns = None"
  shows "mergeCandidate toLowerCase c (ns, ls) =
           (ns @ [newNode c],
            case parentNode toLowerCase c (ns @ [newNode c]) of
              None \<Rightarrow> ls
            | Some p \<Rightarrow> if linkExists p (newNode c) ls then ls
                        else ls @ [\<lparr>source = id_n p, target = id_n (newNode c)\<rparr>])"
  using assms by (simp add: mergeCandidate_def Let_def split: option.splits)

lemma fold_invariant:
  assumes "P s" and "\<And>c s. c \<in> set cs \<Longrightarrow> P s \<Longrightarrow> P (f c s)"
  shows "P (fold f cs s)"
  using assms by (induction cs arbitrary: s) auto

lemma foldl_invariant:
  assumes "P s" and "\<And>c s. c \<in> set cs \<Longrightarrow> P s \<Longrightarrow> P (f s c)"
  shows "P (foldl f s cs)"
  using assms by (induction cs arbitrary: s) auto

lemma merge_Nil: "merge toLowerCase [] st = st"
  by (simp add: merge_def)

lemma triggerGraphUpdate_merge:
  "triggerGraphUpdate toLowerCase u st = merge toLowerCase (case u of None \<Rightarrow> [] | Some ns \<Rightarrow> ns) st"
  by (cases u) (auto simp: triggerGraphUpdate_def merge_Nil)


lemma settled_fixed: "settled toLowerCase c st \<Longrightarrow> mergeCandidate toLowerCase c st = st"
  by (cases st) (auto simp: settled_def mergeCandidate_found)

lemma label_promote: "map (\<lambda>ex. P (label ex)) (ns[i := (ns ! i)\<lparr>status := Active\<rparr>]) = map (\<lambda>ex. P (label ex)) ns"
  by (cases "i < length ns") (auto simp: nth_list_update intro!: nth_equalityI)

lemma findIndex_promote:
  "findIndex (\<lambda>ex. P (label ex)) (ns[i := (ns ! i)\<lparr>status := Active\<rparr>]) = findIndex (\<lambda>ex. P (label ex)) ns"
  by (rule findIndex_map_cong) (rule label_promote)

lemma settled_after: "settled toLowerCase c (mergeCandidate toLowerCase c st)"
proof (cases st)
  case (Pair ns ls)
  let ?P = "\<lambda>ex. toLowerCase (label ex) = toLowerCase (label_u c)"
  show ?thesis
  proof (cases "findIndex ?P ns")
    case None
    have "?P (newNode c)" by (simp add: newNode_def)
    with None have "findIndex ?P (ns @ [newNode c]) = Some (length ns)"
      using findIndex_append_new [where P = ?P and xs = ns and y = "newNode c"] by simp
    then show ?thesis
      using None Pair by (simp add: settled_def mergeCandidate_new newNode_def)
  next
    case (Some i)
    then have i: "i < length ns" by (simp add: findIndex_SomeD)
    have "findIndex ?P (ns[i := (ns ! i)\<lparr>status := Active\<rparr>]) = Some i"
      using Some findIndex_promote [of "\<lambda>l. toLowerCase l = toLowerCase (label_u c)" ns i] by simp
    with Some i show ?thesis
      using Pair by (cases "status (ns ! i)") (auto simp: settled_def mergeCandidate_found)
  qed
qed

lemma settled_preserved:
  assumes "settled toLowerCase c st"
  shows "settled toLowerCase c (mergeCandidate toLowerCase c' st)"
proof (cases st)
  case (Pair ns ls)
  let ?P = "\<lambda>ex. toLowerCase (label ex) = toLowerCase (label_u c)"
  let ?P' = "\<lambda>ex. toLowerCase (label ex) = toLowerCase (label_u c')"
  from assms Pair obtain i where i: "findIndex ?P ns = Some i"
    and a: "status_u c = Active \<longrightarrow> status (ns ! i) = Active"
    by (auto simp: settled_def)
  from i have il: "i < length ns" by (simp add: findIndex_SomeD)
  show ?thesis
  proof (cases "findIndex ?P' ns")
    case None
    have "findIndex ?P (ns @ [newNode c']) = Some i"
      using i findIndex_append_Some [where P = ?P and xs = ns and ys = "[newNode c']"] by simp
    with a il show ?thesis
      using None Pair by (simp add: settled_def mergeCandidate_new nth_append)
  next
    case (Some j)
    have "findIndex ?P (ns[j := (ns ! j)\<lparr>status := Active\<rparr>]) = Some i"
      using i findIndex_promote [of "\<lambda>l. toLowerCase l = toLowerCase (label_u c)" ns j] by simp
    moreover have "status_u c = Active \<longrightarrow> status ((ns[j := (ns ! j)\<lparr>status := Active\<rparr>]) ! i) = Active"
      using a il by (cases "i = j") auto
    ultimately show ?thesis
      using Some Pair i a by (auto simp: settled_def mergeCandidate_found)
  qed
qed

lemma settled_fold:
  "settled toLowerCase c st \<Longrightarrow> settled toLowerCase c (fold (mergeCandidate toLowerCase) cs st)"
  by (rule fold_invariant) (auto intro: settled_preserved)

lemma settled_all_after: "c \<in> set cs \<Longrightarrow> settled toLowerCase c (fold (mergeCandidate toLowerCase) cs st)"
proof (induction cs arbitrary: st)
  case Nil
  then show ?case by simp
next
  case (Cons a cs)
  show ?case
  proof (cases "c = a")
    case True
    then show ?thesis by (simp add: settled_fold settled_after)
  next
    case False
    with Cons show ?thesis by simp
  qed
qed

lemma fold_settled_fixed:
  "(\<forall>c\<in>set cs. settled toLowerCase c st) \<Longrightarrow> fold (mergeCandidate toLowerCase) cs st = st"
  by (induction cs) (auto simp: settled_fixed)

lemma fold_mergeCandidate_idem:
  "fold (mergeCandidate toLowerCase) cs (fold (mergeCandidate toLowerCase) cs st) = fold (mergeCandidate toLowerCase) cs st"
  by (rule fold_settled_fixed) (simp add: settled_all_after)

lemma merge_idem: "merge toLowerCase cs (merge toLowerCase cs st) = merge toLowerCase cs st"
proof -
  obtain ns ls where f: "fold (mergeCandidate toLowerCase) cs (mindMapNodes st, mindMapLinks st) = (ns, ls)"
    by (cases "fold (mergeCandidate toLowerCase) cs (mindMapNodes st, mindMapLinks st)")
  have "fold (mergeCandidate toLowerCase) cs (ns, ls) = (ns, ls)"
    using fold_mergeCandidate_idem [of toLowerCase cs "(mindMapNodes st, mindMapLinks st)"] f by simp
  with f show ?thesis by (simp add: merge_def)
qed

text \<open>
  Claim C1 (idempotence). For every state and every answer of the extraction service,
  applying the graph update a second time with the same proposal list gives exactly the
  state of the first application: the same node list and the same link list. This holds
  whatever function on strings \<open>toLowerCase\<close> is.
\<close>

theorem C1_merge_idempotent:
  "triggerGraphUpdate toLowerCase u (triggerGraphUpdate toLowerCase u st) = triggerGraphUpdate toLowerCase u st"
  by (simp add: triggerGraphUpdate_merge merge_idem)




subsection \<open>Status only moves from potential to active\<close>

lemma promotedFrom_refl: "promotedFrom ns ns"
  by (simp add: promotedFrom_def)

lemma promotedFrom_trans:
  assumes "promotedFrom ns ns'" and "promotedFrom ns' ns''"
  shows "promotedFrom ns ns''"
  unfolding promotedFrom_def
proof (intro conjI allI impI)
  show "length ns \<le> length ns''"
    using assms by (simp add: promotedFrom_def)
next
  fix i assume i: "i < length ns"
  then have i': "i < length ns'" using assms(1) by (simp add: promotedFrom_def)
  from assms(1) i have a: "ns' ! i = ns ! i \<or>
      (status (ns ! i) = Potential \<and> ns' ! i = (ns ! i)\<lparr>status := Active\<rparr>)"
    by (simp add: promotedFrom_def)
  from assms(2) i' have b: "ns'' ! i = ns' ! i \<or>
      (status (ns' ! i) = Potential \<and> ns'' ! i = (ns' ! i)\<lparr>status := Active\<rparr>)"
    by (simp add: promotedFrom_def)
  from a b show "ns'' ! i = ns ! i \<or>
      (status (ns ! i) = Potential \<and> ns'' ! i = (ns ! i)\<lparr>status := Active\<rparr>)"
    by auto
qed

lemma mergeCandidate_promotedFrom: "promotedFrom ns (fst (mergeCandidate toLowerCase c (ns, ls)))"
proof (cases "findIndex (\<lambda>ex. toLowerCase (label ex) = toLowerCase (label_u c)) ns")
  case None
  then show ?thesis
    by (simp add: mergeCandidate_new promotedFrom_def nth_append)
next
  case (Some i)
  then have "i < length ns" by (simp add: findIndex_SomeD)
  with Some show ?thesis
    by (auto simp: mergeCandidate_found promotedFrom_def nth_list_update)
qed

lemma fold_mergeCandidate_promotedFrom:
  "promotedFrom ns (fst (fold (mergeCandidate toLowerCase) cs (ns, ls)))"
proof (induction cs arbitrary: ns ls)
  case Nil
  show ?case by (simp add: promotedFrom_refl)
next
  case (Cons c cs)
  obtain ns' ls' where s: "mergeCandidate toLowerCase c (ns, ls) = (ns', ls')"
    by (cases "mergeCandidate toLowerCase c (ns, ls)")
  have "promotedFrom ns ns'"
    using mergeCandidate_promotedFrom [of ns toLowerCase c ls] s by simp
  moreover have "promotedFrom ns' (fst (fold (mergeCandidate toLowerCase) cs (ns', ls')))"
    by (rule Cons.IH)
  ultimately show ?case
    using s by (simp add: promotedFrom_trans)
qed

lemma mindMapNodes_merge:
  "mindMapNodes (merge toLowerCase cs st) = fst (fold (mergeCandidate toLowerCase) cs (mindMapNodes st, mindMapLinks st))"
  by (simp add: merge_def split: prod.splits)

lemma mindMapLinks_merge:
  "mindMapLinks (merge toLowerCase cs st) = snd (fold (mergeCandidate toLowerCase) cs (mindMapNodes st, mindMapLinks st))"
  by (simp add: merge_def split: prod.splits)

lemma triggerGraphUpdate_promotedFrom:
  "promotedFrom (mindMapNodes st) (mindMapNodes (triggerGraphUpdate toLowerCase u st))"
  by (simp add: triggerGraphUpdate_merge mindMapNodes_merge fold_mergeCandidate_promotedFrom)

lemma updates_promotedFrom:
  "promotedFrom (mindMapNodes st) (mindMapNodes (foldl (\<lambda>s u. triggerGraphUpdate toLowerCase u s) st us))"
proof (induction us arbitrary: st)
  case Nil
  show ?case by (simp add: promotedFrom_refl)
next
  case (Cons u us)
  have "promotedFrom (mindMapNodes st) (mindMapNodes (triggerGraphUpdate toLowerCase u st))"
    by (rule triggerGraphUpdate_promotedFrom)
  moreover have "promotedFrom (mindMapNodes (triggerGraphUpdate toLowerCase u st))
      (mindMapNodes (foldl (\<lambda>s u. triggerGraphUpdate toLowerCase u s) (triggerGraphUpdate toLowerCase u st) us))"
    by (rule Cons.IH)
  ultimately show ?case by (simp add: promotedFrom_trans)
qed

text \<open>
  Claim C2 (monotonic status). Across any sequence of graph updates, from any state, the
  node at each position of the node list stays in the list at that position; a node that
  is active is left exactly as it is, and a node changes in no other way than by its
  status going from potential to active. This holds whatever function on strings
  \<open>toLowerCase\<close> is.
\<close>

theorem C2_status_monotonic:
  assumes "i < length (mindMapNodes st)"
  shows "i < length (mindMapNodes (foldl (\<lambda>s u. triggerGraphUpdate toLowerCase u s) st us)) \<and>
         (status (mindMapNodes st ! i) = Active \<longrightarrow>
            mindMapNodes (foldl (\<lambda>s u. triggerGraphUpdate toLowerCase u s) st us) ! i = mindMapNodes st ! i) \<and>
         (mindMapNodes (foldl (\<lambda>s u. triggerGraphUpdate toLowerCase u s) st us) ! i = mindMapNodes st ! i \<or>
          (status (mindMapNodes st ! i) = Potential \<and>
           mindMapNodes (foldl (\<lambda>s u. triggerGraphUpdate toLowerCase u s) st us) ! i
             = (mindMapNodes st ! i)\<lparr>status := Active\<rparr>))"
  using updates_promotedFrom [of st toLowerCase us] assms
  by (auto simp: promotedFrom_def)

theorem C2_status_monotonic_witness:
  "0 < length (mindMapNodes travelPotential) \<and>
   status (mindMapNodes travelPotential ! 0) = Active \<and>
   mindMapNodes (foldl (\<lambda>s u. triggerGraphUpdate asciiLowerCase u s) travelPotential
       [Some [travelActive], Some [travelSuggested]]) ! 0 = mindMapNodes travelPotential ! 0"
proof -
  have h: "0 < length (mindMapNodes travelPotential)"
    by (simp add: travelPotential_def)
  have a: "status (mindMapNodes travelPotential ! 0) = Active"
    by (simp add: travelPotential_def INITIAL_NODES_def)
  from C2_status_monotonic [OF h, of asciiLowerCase "[Some [travelActive], Some [travelSuggested]]"] a h
  show ?thesis by blast
qed


subsection \<open>No two nodes with the same label up to case\<close>

lemma mergeCandidate_distinct_keys:
  assumes "distinct (map (\<lambda>ex. toLowerCase (label ex)) ns)"
  shows "distinct (map (\<lambda>ex. toLowerCase (label ex)) (fst (mergeCandidate toLowerCase c (ns, ls))))"
proof (cases "findIndex (\<lambda>ex. toLowerCase (label ex) = toLowerCase (label_u c)) ns")
  case None
  then have "toLowerCase (label_u c) \<notin> set (map (\<lambda>ex. toLowerCase (label ex)) ns)"
    by (auto simp: findIndex_None_iff)
  with assms None show ?thesis
    by (simp add: mergeCandidate_new newNode_def)
next
  case (Some i)
  with assms show ?thesis
    using label_promote [of toLowerCase ns i]
    by (simp add: mergeCandidate_found)
qed

lemma fold_mergeCandidate_distinct_keys:
  "distinct (map (\<lambda>ex. toLowerCase (label ex)) ns) \<Longrightarrow>
   distinct (map (\<lambda>ex. toLowerCase (label ex)) (fst (fold (mergeCandidate toLowerCase) cs (ns, ls))))"
proof (induction cs arbitrary: ns ls)
  case Nil
  then show ?case by simp
next
  case (Cons c cs)
  obtain ns' ls' where s: "mergeCandidate toLowerCase c (ns, ls) = (ns', ls')"
    by (cases "mergeCandidate toLowerCase c (ns, ls)")
  have "distinct (map (\<lambda>ex. toLowerCase (label ex)) ns')"
    using mergeCandidate_distinct_keys [OF Cons.prems, of c ls] s by simp
  then have "distinct (map (\<lambda>ex. toLowerCase (label ex)) (fst (fold (mergeCandidate toLowerCase) cs (ns', ls'))))"
    by (rule Cons.IH)
  then show ?case using s by simp
qed

lemma distinct_map_filter_one:
  assumes "distinct (map g xs)" and "x \<in> set xs"
  shows "length (filter (\<lambda>y. g y = g x) xs) = 1"
  using assms
proof (induction xs)
  case Nil
  then show ?case by simp
next
  case (Cons a xs)
  show ?case
  proof (cases "g a = g x")
    case True
    have "g a \<notin> g ` set xs" using Cons.prems(1) by simp
    then have "\<forall>y\<in>set xs. g y \<noteq> g x" unfolding True by (metis imageI)
    then have "filter (\<lambda>y. g y = g x) xs = []"
      by (simp add: filter_empty_conv)
    with True show ?thesis by simp
  next
    case False
    with Cons.prems(2) have "x \<in> set xs" by auto
    moreover have "distinct (map g xs)" using Cons.prems(1) by simp
    ultimately have "length (filter (\<lambda>y. g y = g x) xs) = 1" by (rule Cons.IH [rotated])
    with False show ?thesis by simp
  qed
qed

lemma settled_one_node:
  assumes "settled toLowerCase c (ns, ls)" and "distinct (map (\<lambda>ex. toLowerCase (label ex)) ns)"
  shows "length (filter (\<lambda>ex. toLowerCase (label ex) = toLowerCase (label_u c)) ns) = 1"
proof -
  from assms(1) obtain i where
    i: "findIndex (\<lambda>ex. toLowerCase (label ex) = toLowerCase (label_u c)) ns = Some i"
    by (auto simp: settled_def)
  from findIndex_SomeD [OF i] have "ns ! i \<in> set ns"
    and k: "toLowerCase (label (ns ! i)) = toLowerCase (label_u c)"
    by simp_all
  with distinct_map_filter_one [OF assms(2), of "ns ! i"] show ?thesis by simp
qed

text \<open>
  Claim C3 (case-insensitive dedup). Whatever function on strings \<open>toLowerCase\<close> is: if
  no two nodes of a state have labels that it maps to the same string, a graph update
  leaves it so, whatever the proposals, and after the update every proposal of the list
  has exactly one node with its label up to that function. So two proposals whose
  labels differ in case only, such as ``Travel'' and ``travel'', end in one node.
\<close>

theorem C3_case_insensitive_dedup:
  assumes "distinct (map (\<lambda>ex. toLowerCase (label ex)) (mindMapNodes st))"
  shows "distinct (map (\<lambda>ex. toLowerCase (label ex))
           (mindMapNodes (triggerGraphUpdate toLowerCase u st))) \<and>
         (\<forall>cs c. u = Some cs \<longrightarrow> c \<in> set cs \<longrightarrow>
            length (filter (\<lambda>ex. toLowerCase (label ex) = toLowerCase (label_u c))
                      (mindMapNodes (triggerGraphUpdate toLowerCase u st))) = 1)"
proof (intro conjI allI impI)
  show d: "distinct (map (\<lambda>ex. toLowerCase (label ex))
           (mindMapNodes (triggerGraphUpdate toLowerCase u st)))"
    using assms
    by (simp add: triggerGraphUpdate_merge mindMapNodes_merge fold_mergeCandidate_distinct_keys)
  fix cs c assume u: "u = Some cs" and c: "c \<in> set cs"
  obtain ns ls where f: "fold (mergeCandidate toLowerCase) cs (mindMapNodes st, mindMapLinks st) = (ns, ls)"
    by (cases "fold (mergeCandidate toLowerCase) cs (mindMapNodes st, mindMapLinks st)")
  have n: "mindMapNodes (triggerGraphUpdate toLowerCase u st) = ns"
    using u f by (simp add: triggerGraphUpdate_merge mindMapNodes_merge)
  have "settled toLowerCase c (ns, ls)"
    using settled_all_after [OF c, of toLowerCase "(mindMapNodes st, mindMapLinks st)"] f by simp
  moreover have "distinct (map (\<lambda>ex. toLowerCase (label ex)) ns)" using d n by simp
  ultimately show "length (filter (\<lambda>ex. toLowerCase (label ex) = toLowerCase (label_u c))
                      (mindMapNodes (triggerGraphUpdate toLowerCase u st))) = 1"
    unfolding n by (rule settled_one_node)
qed

lemma travel_both_once:
  "map label (mindMapNodes (triggerGraphUpdate asciiLowerCase (Some [travelSuggested, travelActive]) INITIAL_STATE))
     = [''Context'', ''Travel'']"
  by code_simp

theorem C3_case_insensitive_dedup_witness:
  "distinct (map (\<lambda>ex. asciiLowerCase (label ex)) (mindMapNodes INITIAL_STATE)) \<and>
   travelActive \<in> set [travelSuggested, travelActive] \<and>
   distinct (map (\<lambda>ex. asciiLowerCase (label ex))
      (mindMapNodes (triggerGraphUpdate asciiLowerCase (Some [travelSuggested, travelActive]) INITIAL_STATE))) \<and>
   length (filter (\<lambda>ex. asciiLowerCase (label ex) = asciiLowerCase (label_u travelActive))
      (mindMapNodes (triggerGraphUpdate asciiLowerCase (Some [travelSuggested, travelActive]) INITIAL_STATE))) = 1 \<and>
   map label (mindMapNodes (triggerGraphUpdate asciiLowerCase (Some [travelSuggested, travelActive]) INITIAL_STATE))
     = [''Context'', ''Travel'']"
proof -
  have h: "distinct (map (\<lambda>ex. asciiLowerCase (label ex)) (mindMapNodes INITIAL_STATE))"
    by (simp add: INITIAL_STATE_def INITIAL_NODES_def)
  have m: "travelActive \<in> set [travelSuggested, travelActive]" by simp
  note t = C3_case_insensitive_dedup [OF h, of "Some [travelSuggested, travelActive]"]
  from t have 1: "distinct (map (\<lambda>ex. asciiLowerCase (label ex))
      (mindMapNodes (triggerGraphUpdate asciiLowerCase (Some [travelSuggested, travelActive]) INITIAL_STATE)))"
    by (rule conjunct1)
  from t m have 2: "length (filter (\<lambda>ex. asciiLowerCase (label ex) = asciiLowerCase (label_u travelActive))
      (mindMapNodes (triggerGraphUpdate asciiLowerCase (Some [travelSuggested, travelActive]) INITIAL_STATE))) = 1"
    by blast
  from h m 1 2 travel_both_once show ?thesis by (intro conjI)
qed

subsection \<open>A matched proposal changes one status at most\<close>

text \<open>
  Claim C8 (promotion frame). Whatever function on strings \<open>toLowerCase\<close> is: when it
  maps a proposal's label and the label of an existing node to the same string, merging
  the proposal leaves the link list as it is and the node list as it is except for the
  status field of one matching node; that status either stays or, when it was potential
  and the proposal is active, becomes active.
\<close>

theorem C8_promotion_frame:
  assumes "\<exists>ex\<in>set ns. toLowerCase (label ex) = toLowerCase (label_u c)"
  shows "\<exists>i<length ns.
           toLowerCase (label (ns ! i)) = toLowerCase (label_u c) \<and>
           (\<exists>s. fst (mergeCandidate toLowerCase c (ns, ls)) = ns[i := (ns ! i)\<lparr>status := s\<rparr>] \<and>
                (s = status (ns ! i) \<or>
                 (status (ns ! i) = Potential \<and> status_u c = Active \<and> s = Active))) \<and>
           snd (mergeCandidate toLowerCase c (ns, ls)) = ls"
proof -
  let ?P = "\<lambda>ex. toLowerCase (label ex) = toLowerCase (label_u c)"
  from assms have "findIndex ?P ns \<noteq> None"
    by (simp add: findIndex_None_iff)
  then obtain i where i: "findIndex ?P ns = Some i" by auto
  have il: "i < length ns" and m: "?P (ns ! i)"
    using findIndex_SomeD [OF i] by simp_all
  show ?thesis
  proof (cases "status (ns ! i) = Potential \<and> status_u c = Active")
    case True
    with i il m show ?thesis
      by (auto simp: mergeCandidate_found intro!: exI [of _ i] exI [of _ Active])
  next
    case False
    have "ns[i := (ns ! i)\<lparr>status := status (ns ! i)\<rparr>] = ns"
      by (simp add: list_update_same_conv)
    with False i il m show ?thesis
      by (auto simp: mergeCandidate_found intro!: exI [of _ i] exI [of _ "status (ns ! i)"])
  qed
qed

theorem C8_promotion_frame_witness:
  "(\<exists>ex\<in>set (mindMapNodes travelPotential). asciiLowerCase (label ex) = asciiLowerCase (label_u travelActive)) \<and>
   (\<exists>i<length (mindMapNodes travelPotential).
      asciiLowerCase (label (mindMapNodes travelPotential ! i)) = asciiLowerCase (label_u travelActive) \<and>
      (\<exists>s. fst (mergeCandidate asciiLowerCase travelActive (mindMapNodes travelPotential, mindMapLinks travelPotential))
              = (mindMapNodes travelPotential)[i := (mindMapNodes travelPotential ! i)\<lparr>status := s\<rparr>] \<and>
           (s = status (mindMapNodes travelPotential ! i) \<or>
            (status (mindMapNodes travelPotential ! i) = Potential \<and> status_u travelActive = Active \<and>
             s = Active))) \<and>
      snd (mergeCandidate asciiLowerCase travelActive (mindMapNodes travelPotential, mindMapLinks travelPotential))
        = mindMapLinks travelPotential)"
proof -
  have k: "asciiLowerCase ''Travel'' = asciiLowerCase ''travel''"
    by code_simp
  have h: "\<exists>ex\<in>set (mindMapNodes travelPotential). asciiLowerCase (label ex) = asciiLowerCase (label_u travelActive)"
    by (simp add: travelPotential_def travelActive_def k)
  from C8_promotion_frame [OF h, of "mindMapLinks travelPotential"] h
  show ?thesis by simp
qed


subsection \<open>Links join nodes of the graph\<close>

lemma id_n_promote: "id_n ` set (ns[i := (ns ! i)\<lparr>status := Active\<rparr>]) = id_n ` set ns"
proof -
  have "map id_n (ns[i := (ns ! i)\<lparr>status := Active\<rparr>]) = map id_n ns"
    by (cases "i < length ns") (auto simp: nth_list_update intro!: nth_equalityI)
  then have "set (map id_n (ns[i := (ns ! i)\<lparr>status := Active\<rparr>])) = set (map id_n ns)"
    by simp
  then show ?thesis by simp
qed

lemma parentNode_in_set: "parentNode toLowerCase c ns = Some p \<Longrightarrow> p \<in> set ns"
  by (auto simp: parentNode_def find_Some_iff split: option.splits)

lemma mergeCandidate_linksClosed:
  assumes "linksClosed (ns, ls)"
  shows "linksClosed (mergeCandidate toLowerCase c (ns, ls))"
proof (cases "findIndex (\<lambda>ex. toLowerCase (label ex) = toLowerCase (label_u c)) ns")
  case None
  show ?thesis
  proof (cases "parentNode toLowerCase c (ns @ [newNode c])")
    case n: None
    with None assms show ?thesis
      by (auto simp: mergeCandidate_new linksClosed_def)
  next
    case (Some p)
    then have "p \<in> set (ns @ [newNode c])" by (rule parentNode_in_set)
    then have "id_n p \<in> id_n ` set (ns @ [newNode c])" by (rule imageI)
    with None Some assms show ?thesis
      by (auto simp: mergeCandidate_new linksClosed_def)
  qed
next
  case (Some i)
  with assms show ?thesis
    by (simp add: mergeCandidate_found linksClosed_def id_n_promote)
qed

lemma fold_mergeCandidate_linksClosed:
  "linksClosed st \<Longrightarrow> linksClosed (fold (mergeCandidate toLowerCase) cs st)"
proof (rule fold_invariant)
  show "linksClosed st \<Longrightarrow> linksClosed st" .
next
  fix c s assume "linksClosed s"
  then show "linksClosed (mergeCandidate toLowerCase c s)"
    by (cases s) (simp add: mergeCandidate_linksClosed)
qed

lemma triggerGraphUpdate_linksClosed:
  assumes "linksClosed (mindMapNodes st, mindMapLinks st)"
  shows "linksClosed (mindMapNodes (triggerGraphUpdate toLowerCase u st), mindMapLinks (triggerGraphUpdate toLowerCase u st))"
  using fold_mergeCandidate_linksClosed [OF assms]
  by (simp add: triggerGraphUpdate_merge mindMapNodes_merge mindMapLinks_merge)

lemma session_linksClosed:
  "linksClosed (mindMapNodes (session toLowerCase us), mindMapLinks (session toLowerCase us))"
  unfolding session_def
proof (rule foldl_invariant
    [where P = "\<lambda>st. linksClosed (mindMapNodes st, mindMapLinks st)"])
  show "linksClosed (mindMapNodes INITIAL_STATE, mindMapLinks INITIAL_STATE)"
    by (simp add: linksClosed_def INITIAL_STATE_def)
next
  fix c and s :: DojoState
  assume "linksClosed (mindMapNodes s, mindMapLinks s)"
  then show "linksClosed (mindMapNodes (triggerGraphUpdate toLowerCase c s), mindMapLinks (triggerGraphUpdate toLowerCase c s))"
    by (rule triggerGraphUpdate_linksClosed)
qed

lemma mergeCandidate_links_step:
  "snd (mergeCandidate toLowerCase c (ns, ls)) = ls \<or>
   (\<exists>p\<in>set (fst (mergeCandidate toLowerCase c (ns, ls))).
       fst (mergeCandidate toLowerCase c (ns, ls)) = ns @ [newNode c] \<and>
       snd (mergeCandidate toLowerCase c (ns, ls)) = ls @ [\<lparr>source = id_n p, target = id_n (newNode c)\<rparr>])"
proof (cases "findIndex (\<lambda>ex. toLowerCase (label ex) = toLowerCase (label_u c)) ns")
  case None
  show ?thesis
  proof (cases "parentNode toLowerCase c (ns @ [newNode c])")
    case n: None
    with None show ?thesis by (simp add: mergeCandidate_new)
  next
    case (Some p)
    then have "p \<in> set (ns @ [newNode c])" by (rule parentNode_in_set)
    with None Some show ?thesis
      by (cases "linkExists p (newNode c) ls") (auto simp: mergeCandidate_new)
  qed
next
  case (Some i)
  then show ?thesis by (simp add: mergeCandidate_found)
qed

text \<open>
  Claim C10 (link integrity). After any session, the source and the target of every link
  are ids of nodes of the graph. One merge step either leaves the links alone or appends
  a single link, from a node of the extended node list to the node it has just created.
  This holds whatever function on strings \<open>toLowerCase\<close> is.
\<close>

theorem C10_link_integrity:
  "(\<forall>l\<in>set (mindMapLinks (session toLowerCase us)).
       (\<exists>n\<in>set (mindMapNodes (session toLowerCase us)). id_n n = source l) \<and>
       (\<exists>n\<in>set (mindMapNodes (session toLowerCase us)). id_n n = target l)) \<and>
   (snd (mergeCandidate toLowerCase c (ns, ls)) = ls \<or>
    (\<exists>p\<in>set (fst (mergeCandidate toLowerCase c (ns, ls))).
       fst (mergeCandidate toLowerCase c (ns, ls)) = ns @ [newNode c] \<and>
       snd (mergeCandidate toLowerCase c (ns, ls)) = ls @ [\<lparr>source = id_n p, target = id_n (newNode c)\<rparr>]))"
proof (intro conjI ballI)
  fix l assume l: "l \<in> set (mindMapLinks (session toLowerCase us))"
  have "source l \<in> id_n ` set (mindMapNodes (session toLowerCase us))"
    using session_linksClosed [of toLowerCase us] l by (simp add: linksClosed_def)
  then show "\<exists>n\<in>set (mindMapNodes (session toLowerCase us)). id_n n = source l" by auto
  have "target l \<in> id_n ` set (mindMapNodes (session toLowerCase us))"
    using session_linksClosed [of toLowerCase us] l by (simp add: linksClosed_def)
  then show "\<exists>n\<in>set (mindMapNodes (session toLowerCase us)). id_n n = target l" by auto
next
  show "snd (mergeCandidate toLowerCase c (ns, ls)) = ls \<or>
    (\<exists>p\<in>set (fst (mergeCandidate toLowerCase c (ns, ls))).
       fst (mergeCandidate toLowerCase c (ns, ls)) = ns @ [newNode c] \<and>
       snd (mergeCandidate toLowerCase c (ns, ls)) = ls @ [\<lparr>source = id_n p, target = id_n (newNode c)\<rparr>])"
    by (rule mergeCandidate_links_step)
qed

lemma session_travel_links:
  "mindMapLinks (session asciiLowerCase [Some [travelSuggested]]) = [\<lparr>source = ''Context'', target = ''Travel''\<rparr>]"
  by code_simp

theorem C10_link_integrity_witness:
  "\<lparr>source = ''Context'', target = ''Travel''\<rparr> \<in> set (mindMapLinks (session asciiLowerCase [Some [travelSuggested]])) \<and>
   (\<exists>n\<in>set (mindMapNodes (session asciiLowerCase [Some [travelSuggested]])). id_n n = ''Context'') \<and>
   (\<exists>n\<in>set (mindMapNodes (session asciiLowerCase [Some [travelSuggested]])). id_n n = ''Travel'')"
proof -
  have h: "\<lparr>source = ''Context'', target = ''Travel''\<rparr> \<in> set (mindMapLinks (session asciiLowerCase [Some [travelSuggested]]))"
    by (simp add: session_travel_links)
  from C10_link_integrity [of asciiLowerCase "[Some [travelSuggested]]" travelSuggested "[]" "[]"] h
  show ?thesis by fastforce
qed

subsection \<open>What a created node carries\<close>

lemma mergeCandidate_creates:
  assumes "\<forall>ex\<in>set ns. toLowerCase (label ex) \<noteq> toLowerCase (label_u c)"
  shows "fst (mergeCandidate toLowerCase c (ns, ls)) = ns @ [newNode c]"
    and "id_n (newNode c) = label_u c" and "label (newNode c) = label_u c"
    and "type (newNode c) = type_u c" and "status (newNode c) = status_u c"
    and "group (newNode c) = 2" and "description (newNode c) = None"
proof -
  from assms have "findIndex (\<lambda>ex. toLowerCase (label ex) = toLowerCase (label_u c)) ns = None"
    by (simp add: findIndex_None_iff)
  then show "fst (mergeCandidate toLowerCase c (ns, ls)) = ns @ [newNode c]"
    by (simp add: mergeCandidate_new)
qed (simp_all add: newNode_def)

text \<open>
  Claim C7 (a created node carries the proposal's fields). The created node takes its id,
  label, type and status from the proposal, but not its description: merging the proposal
  ``travel'', described as ``Trip plans'', into the initial graph yields a node without a
  description.
\<close>

theorem C7_description_dropped:
  "mergeCandidate asciiLowerCase travelActive (INITIAL_NODES, []) =
     (INITIAL_NODES @ [\<lparr>id_n = ''travel'', label = ''travel'', group = 2, type = Concept,
                         status = Active, description = None\<rparr>],
      [\<lparr>source = ''Context'', target = ''travel''\<rparr>]) \<and>
   description (last (fst (mergeCandidate asciiLowerCase travelActive (INITIAL_NODES, [])))) = None \<and>
   description_u travelActive = ''Trip plans''"
  by code_simp


section \<open>Properties of getPathToRoot\<close>


lemma pathLoop_stop: "\<not> fp \<or> 100 \<le> it \<Longrightarrow> pathLoop ls path cur fp it = (path, it)"
  by (subst pathLoop.simps) auto

lemma pathLoop_none:
  "fp \<Longrightarrow> it < 100 \<Longrightarrow> find (\<lambda>l. target l = cur) ls = None \<Longrightarrow>
   pathLoop ls path cur fp it = (path, it + 1)"
  by (subst pathLoop.simps) (simp add: pathLoop_stop)

lemma pathLoop_seen:
  "fp \<Longrightarrow> it < 100 \<Longrightarrow> find (\<lambda>l. target l = cur) ls = Some pl \<Longrightarrow> source pl \<in> set path \<Longrightarrow>
   pathLoop ls path cur fp it = (path, it + 1)"
  by (subst pathLoop.simps) (simp add: pathLoop_stop Let_def)

lemma pathLoop_add:
  "fp \<Longrightarrow> it < 100 \<Longrightarrow> find (\<lambda>l. target l = cur) ls = Some pl \<Longrightarrow> source pl \<notin> set path \<Longrightarrow>
   pathLoop ls path cur fp it = pathLoop ls (path @ [source pl]) (source pl) True (it + 1)"
  by (subst pathLoop.simps) (simp add: Let_def)

lemma pathLoop_cases:
  obtains (stop) "\<not> fp \<or> 100 \<le> it" "pathLoop ls path cur fp it = (path, it)"
  | (fail) "fp" "it < 100" "pathLoop ls path cur fp it = (path, it + 1)"
  | (add) pl where "fp" "it < 100" "pl \<in> set ls" "target pl = cur" "source pl \<notin> set path"
      "find (\<lambda>l. target l = cur) ls = Some pl"
      "pathLoop ls path cur fp it = pathLoop ls (path @ [source pl]) (source pl) True (it + 1)"
proof (cases "fp \<and> it < 100")
  case False
  then show ?thesis using stop pathLoop_stop [of fp it ls path cur] by auto
next
  case True
  show ?thesis
  proof (cases "find (\<lambda>l. target l = cur) ls")
    case None
    with True show ?thesis using fail pathLoop_none by auto
  next
    case (Some pl)
    then have pl: "pl \<in> set ls" "target pl = cur"
      by (auto simp: find_Some_iff)
    show ?thesis
    proof (cases "source pl \<in> set path")
      case in_path: True
      with True Some show ?thesis using fail pathLoop_seen by auto
    next
      case False
      with True Some pl show ?thesis using add pathLoop_add by auto
    qed
  qed
qed

lemma pathLoop_grows: "set path \<subseteq> set (fst (pathLoop ls path cur fp it))"
proof (induction "100 - it" arbitrary: path cur fp it)
  case 0
  then show ?case by (simp add: pathLoop_stop)
next
  case (Suc k)
  show ?case
  proof (cases rule: pathLoop_cases [of fp it ls path cur])
    case stop
    then show ?thesis by simp
  next
    case fail
    then show ?thesis by simp
  next
    case (add pl)
    have "k = 100 - (it + 1)" using Suc.hyps(2) by simp
    then have "set (path @ [source pl])
        \<subseteq> set (fst (pathLoop ls (path @ [source pl]) (source pl) True (it + 1)))"
      by (rule Suc.hyps(1))
    with add(7) show ?thesis by simp
  qed
qed

lemma pathLoop_bounds:
  assumes "fp \<longrightarrow> it < length path" and "it \<le> length path" and "it \<le> 100"
    and "distinct path" and "set path \<subseteq> A" and "source ` set ls \<subseteq> A"
  shows "snd (pathLoop ls path cur fp it) \<le> length (fst (pathLoop ls path cur fp it)) \<and>
         snd (pathLoop ls path cur fp it) \<le> 100 \<and>
         distinct (fst (pathLoop ls path cur fp it)) \<and>
         set (fst (pathLoop ls path cur fp it)) \<subseteq> A"
  using assms
proof (induction "100 - it" arbitrary: path cur fp it)
  case 0
  then show ?case by (simp add: pathLoop_stop)
next
  case (Suc k)
  show ?case
  proof (cases rule: pathLoop_cases [of fp it ls path cur])
    case stop
    with Suc.prems show ?thesis by simp
  next
    case fail
    with Suc.prems show ?thesis by simp
  next
    case (add pl)
    have k: "k = 100 - (it + 1)" using Suc.hyps(2) by simp
    have "source pl \<in> A" using add(3) Suc.prems(6) by auto
    with add Suc.prems
    have "snd (pathLoop ls (path @ [source pl]) (source pl) True (it + 1))
            \<le> length (fst (pathLoop ls (path @ [source pl]) (source pl) True (it + 1))) \<and>
          snd (pathLoop ls (path @ [source pl]) (source pl) True (it + 1)) \<le> 100 \<and>
          distinct (fst (pathLoop ls (path @ [source pl]) (source pl) True (it + 1))) \<and>
          set (fst (pathLoop ls (path @ [source pl]) (source pl) True (it + 1))) \<subseteq> A"
      by (intro Suc.hyps(1) [OF k]) auto
    with add(7) show ?thesis by simp
  qed
qed


lemma linkPath_snoc:
  "linkPath ls (ys @ [p, c]) \<longleftrightarrow>
     linkPath ls (ys @ [p]) \<and> (\<exists>l\<in>set ls. source l = p \<and> target l = c)"
  by (induction ls ys rule: linkPath.induct) auto

text \<open>
  \<open>reachIn ls n v\<close> holds exactly when some list of links, \<open>n\<close> links long, is a path
  from the root id to \<open>v\<close>.
\<close>

lemma reachIn_linkPath:
  "reachIn ls n v \<Longrightarrow> \<exists>xs. linkPath ls (xs @ [v]) \<and> length xs = n \<and> hd (xs @ [v]) = ''Context''"
proof (induction n arbitrary: v)
  case 0
  then show ?case by (intro exI [of _ "[]"]) simp
next
  case (Suc n)
  then obtain l where l: "l \<in> set ls" "target l = v" "reachIn ls n (source l)" by auto
  from Suc.IH [OF l(3)] obtain xs where xs: "linkPath ls (xs @ [source l])" "length xs = n"
      "hd (xs @ [source l]) = ''Context''"
    by blast
  have "linkPath ls ((xs @ [source l]) @ [v])"
    using xs(1) l(1,2) by (auto simp: linkPath_snoc)
  moreover have "hd ((xs @ [source l]) @ [v]) = ''Context''"
    using xs(3) by (cases xs) auto
  ultimately show ?case using xs(2) by (intro exI [of _ "xs @ [source l]"]) simp
qed

lemma linkPath_reachIn:
  "linkPath ls (xs @ [v]) \<Longrightarrow> hd (xs @ [v]) = ''Context'' \<Longrightarrow> reachIn ls (length xs) v"
proof (induction xs arbitrary: v rule: rev_induct)
  case Nil
  then show ?case by simp
next
  case (snoc u ys)
  from snoc.prems(1) have lp: "linkPath ls (ys @ [u])"
    and "\<exists>l\<in>set ls. source l = u \<and> target l = v"
    by (simp_all add: linkPath_snoc)
  then obtain l where l: "l \<in> set ls" "source l = u" "target l = v" by auto
  have "hd (ys @ [u]) = ''Context''" using snoc.prems(2) by (cases ys) auto
  with lp have "reachIn ls (length ys) u" by (rule snoc.IH)
  with l show ?case by auto
qed

lemma reachIn_iff_linkPath:
  "reachIn ls n v \<longleftrightarrow>
     (\<exists>xs. linkPath ls xs \<and> length xs = Suc n \<and> hd xs = ''Context'' \<and> last xs = v)"
proof
  assume "reachIn ls n v"
  from reachIn_linkPath [OF this] obtain xs where
    "linkPath ls (xs @ [v])" "length xs = n" "hd (xs @ [v]) = ''Context''" by blast
  then show "\<exists>xs. linkPath ls xs \<and> length xs = Suc n \<and> hd xs = ''Context'' \<and> last xs = v"
    by (intro exI [of _ "xs @ [v]"]) simp
next
  assume "\<exists>xs. linkPath ls xs \<and> length xs = Suc n \<and> hd xs = ''Context'' \<and> last xs = v"
  then obtain xs where xs: "linkPath ls xs" "length xs = Suc n" "hd xs = ''Context''" "last xs = v"
    by blast
  then have "xs \<noteq> []" by auto
  then have "xs = butlast xs @ [v]" using xs(4) by (metis append_butlast_last_id)
  moreover have "length (butlast xs) = n" using xs(2) by simp
  ultimately show "reachIn ls n v"
    using linkPath_reachIn [of ls "butlast xs" v] xs(1,3) by simp
qed

lemma find_unique_target:
  assumes "distinct (map target ls)" and "l \<in> set ls"
  shows "find (\<lambda>k. target k = target l) ls = Some l"
proof -
  have "find (\<lambda>k. target k = target l) ls \<noteq> None"
    using assms(2) by (auto simp: find_None_iff)
  then obtain k where k: "find (\<lambda>k. target k = target l) ls = Some k" by auto
  then have "k \<in> set ls" "target k = target l"
    by (auto simp: find_Some_iff)
  moreover have "inj_on target (set ls)"
    using assms(1) by (simp add: distinct_map)
  ultimately have "k = l" using assms(2) by (auto dest: inj_onD)
  with k show ?thesis by simp
qed

lemma pathLoop_climbs:
  assumes "distinct (map target ls)"
  shows "linkPath ls (rev ws @ [cur]) \<Longrightarrow> distinct (cur # ws) \<Longrightarrow> set ws \<inter> set path = {} \<Longrightarrow>
         cur \<in> set path \<Longrightarrow> it + length ws \<le> 100 \<Longrightarrow>
         set (cur # ws) \<subseteq> set (fst (pathLoop ls path cur True it))"
proof (induction ws arbitrary: path cur it)
  case Nil
  then show ?case using pathLoop_grows [of path ls cur True it] by auto
next
  case (Cons p rest)
  from Cons.prems(1) have lp: "linkPath ls (rev rest @ [p])"
    and "\<exists>l\<in>set ls. source l = p \<and> target l = cur"
    by (simp_all add: linkPath_snoc)
  then obtain l where l: "l \<in> set ls" "source l = p" "target l = cur" by auto
  have f: "find (\<lambda>k. target k = cur) ls = Some l"
    using find_unique_target [OF assms l(1)] l(3) by simp
  have it: "it < 100" using Cons.prems(5) by simp
  have np: "source l \<notin> set path" using Cons.prems(3) l(2) by auto
  have eq: "pathLoop ls path cur True it = pathLoop ls (path @ [p]) p True (it + 1)"
    using pathLoop_add [OF _ it f np] l(2) by simp
  have "set (p # rest) \<subseteq> set (fst (pathLoop ls (path @ [p]) p True (it + 1)))"
  proof (rule Cons.IH [OF lp])
    show "distinct (p # rest)" using Cons.prems(2) by simp
    show "set rest \<inter> set (path @ [p]) = {}" using Cons.prems(2,3) by auto
    show "p \<in> set (path @ [p])" by simp
    show "it + 1 + length rest \<le> 100" using Cons.prems(5) by simp
  qed
  moreover have "cur \<in> set (fst (pathLoop ls (path @ [p]) p True (it + 1)))"
    using pathLoop_grows [of "path @ [p]" ls p True "it + 1"] Cons.prems(4) by auto
  ultimately show ?case using eq by simp
qed

lemma getPathToRoot_along_path:
  assumes "distinct (map target ls)" and "linkPath ls xs" and "xs \<noteq> []"
    and "distinct xs" and "length xs \<le> 101"
  shows "set xs \<subseteq> set (getPathToRoot (last xs) ls)"
proof -
  obtain ws cur where r: "rev xs = cur # ws"
    using assms(3) by (cases "rev xs") auto
  then have xs: "xs = rev ws @ [cur]" by (metis rev_rev_ident rev.simps(2))
  have "set (cur # ws) \<subseteq> set (fst (pathLoop ls [cur] cur True 0))"
  proof (rule pathLoop_climbs [OF assms(1)])
    show "linkPath ls (rev ws @ [cur])" using assms(2) xs by simp
    show "distinct (cur # ws)" using assms(4) xs by auto
    show "set ws \<inter> set [cur] = {}" using assms(4) xs by auto
    show "cur \<in> set [cur]" by simp
    show "0 + length ws \<le> 100" using assms(5) xs by simp
  qed
  then show ?thesis using xs by (simp add: getPathToRoot_def)
qed

lemma getPathToRoot_bounds:
  "getPathToRootIterations q ls \<le> length (getPathToRoot q ls) \<and>
   getPathToRootIterations q ls \<le> 100 \<and>
   distinct (getPathToRoot q ls) \<and>
   set (getPathToRoot q ls) \<subseteq> insert q (source ` set ls)"
  unfolding getPathToRoot_def getPathToRootIterations_def
  by (rule pathLoop_bounds) auto

lemma getPathToRoot_node_count:
  assumes "q \<in> id_n ` set ns" and "source ` set ls \<subseteq> id_n ` set ns"
  shows "getPathToRootIterations q ls \<le> length ns"
proof -
  have "getPathToRootIterations q ls \<le> length (getPathToRoot q ls)"
    using getPathToRoot_bounds by blast
  also have "\<dots> = card (set (getPathToRoot q ls))"
    using getPathToRoot_bounds [of q ls] by (simp add: distinct_card)
  also have "\<dots> \<le> card (id_n ` set ns)"
  proof (rule card_mono)
    show "finite (id_n ` set ns)" by simp
    have "set (getPathToRoot q ls) \<subseteq> insert q (source ` set ls)"
      using getPathToRoot_bounds [of q ls] by blast
    also have "\<dots> \<subseteq> id_n ` set ns"
      using assms by blast
    finally show "set (getPathToRoot q ls) \<subseteq> id_n ` set ns" .
  qed
  also have "\<dots> \<le> card (set ns)" by (rule card_image_le) simp
  also have "\<dots> \<le> length ns" by (rule card_length)
  finally show ?thesis .
qed


lemma linkPath_trancl:
  "linkPath ls (u # vs) \<Longrightarrow> v \<in> set vs \<Longrightarrow> (u, v) \<in> (linkRel ls)\<^sup>+"
proof (induction vs arbitrary: u)
  case Nil
  then show ?case by simp
next
  case (Cons w rest)
  from Cons.prems(1) have uw: "(u, w) \<in> linkRel ls" and lp: "linkPath ls (w # rest)"
    by (auto simp: linkRel_def)
  show ?case
  proof (cases "v = w")
    case True
    with uw show ?thesis by auto
  next
    case False
    with Cons.prems(2) have "v \<in> set rest" by simp
    with lp have "(w, v) \<in> (linkRel ls)\<^sup>+" by (rule Cons.IH)
    with uw show ?thesis by (rule trancl_into_trancl2)
  qed
qed

lemma linkPath_tail: "linkPath ls (u # vs) \<Longrightarrow> linkPath ls vs"
  by (cases vs) auto

lemma acyclic_linkPath_distinct:
  "acyclic (linkRel ls) \<Longrightarrow> linkPath ls xs \<Longrightarrow> distinct xs"
proof (induction xs)
  case Nil
  show ?case by simp
next
  case (Cons u vs)
  have "u \<notin> set vs"
  proof
    assume "u \<in> set vs"
    with Cons.prems(2) have "(u, u) \<in> (linkRel ls)\<^sup>+" by (rule linkPath_trancl)
    with Cons.prems(1) show False by (simp add: acyclic_def)
  qed
  moreover have "distinct vs"
    using Cons.prems by (intro Cons.IH) (auto dest: linkPath_tail)
  ultimately show ?case by simp
qed

lemma acyclic_by_rank:
  fixes f :: "string \<Rightarrow> nat"
  assumes "\<forall>l\<in>set ls. f (source l) < f (target l)"
  shows "acyclic (linkRel ls)"
proof -
  have "linkRel ls \<subseteq> inv_image less_than f"
    using assms by (auto simp: linkRel_def)
  moreover have "wf (inv_image less_than f)" by simp
  ultimately have "wf (linkRel ls)" by (rule wf_subset [rotated])
  then show ?thesis by (rule wf_acyclic)
qed

text \<open>
  Claim C6 (path to the root), as amended. For every link list and every queried id the
  loop of \<open>getPathToRoot\<close> makes at most 100 passes, and at most as many passes as there
  are nodes when the queried id and the source of every link are node ids; the result
  contains the queried id. The result contains the root id ``Context'' when the link set
  is acyclic, no id is the target of two links, and a directed path of at most 100 links
  leads from the root to the queried id.
\<close>

theorem C6_path_to_root:
  "q \<in> set (getPathToRoot q ls) \<and>
   getPathToRootIterations q ls \<le> 100 \<and>
   (q \<in> id_n ` set ns \<and> source ` set ls \<subseteq> id_n ` set ns
      \<longrightarrow> getPathToRootIterations q ls \<le> length ns) \<and>
   (acyclic (linkRel ls) \<and> distinct (map target ls) \<and>
    linkPath ls xs \<and> xs \<noteq> [] \<and> hd xs = ''Context'' \<and> last xs = q \<and> length xs \<le> 101
      \<longrightarrow> ''Context'' \<in> set (getPathToRoot q ls))"
proof (intro conjI impI)
  show "q \<in> set (getPathToRoot q ls)"
    using pathLoop_grows [of "[q]" ls q True 0] by (simp add: getPathToRoot_def)
  show "getPathToRootIterations q ls \<le> 100"
    using getPathToRoot_bounds by blast
next
  assume "q \<in> id_n ` set ns \<and> source ` set ls \<subseteq> id_n ` set ns"
  then show "getPathToRootIterations q ls \<le> length ns"
    by (simp add: getPathToRoot_node_count)
next
  assume a: "acyclic (linkRel ls) \<and> distinct (map target ls) \<and>
    linkPath ls xs \<and> xs \<noteq> [] \<and> hd xs = ''Context'' \<and> last xs = q \<and> length xs \<le> 101"
  then have "distinct xs" by (auto intro: acyclic_linkPath_distinct)
  with a have "set xs \<subseteq> set (getPathToRoot (last xs) ls)"
    by (intro getPathToRoot_along_path) auto
  moreover have "''Context'' \<in> set xs" using a by (metis hd_in_set)
  ultimately show "''Context'' \<in> set (getPathToRoot q ls)" using a by auto
qed

theorem C6_path_to_root_witness:
  "(''Travel'' \<in> id_n ` set (mindMapNodes travelPotential) \<and>
    source ` set (mindMapLinks travelPotential) \<subseteq> id_n ` set (mindMapNodes travelPotential)) \<and>
   (acyclic (linkRel (mindMapLinks travelPotential)) \<and>
    distinct (map target (mindMapLinks travelPotential)) \<and>
    linkPath (mindMapLinks travelPotential) [''Context'', ''Travel''] \<and>
    [''Context'', ''Travel''] \<noteq> [] \<and> hd [''Context'', ''Travel''] = ''Context'' \<and>
    last [''Context'', ''Travel''] = ''Travel'' \<and> length [''Context'', ''Travel''] \<le> 101) \<and>
   ''Travel'' \<in> set (getPathToRoot ''Travel'' (mindMapLinks travelPotential)) \<and>
   getPathToRootIterations ''Travel'' (mindMapLinks travelPotential)
      \<le> length (mindMapNodes travelPotential) \<and>
   ''Context'' \<in> set (getPathToRoot ''Travel'' (mindMapLinks travelPotential))"
proof -
  have h1: "''Travel'' \<in> id_n ` set (mindMapNodes travelPotential) \<and>
    source ` set (mindMapLinks travelPotential) \<subseteq> id_n ` set (mindMapNodes travelPotential)"
    by (simp add: travelPotential_def INITIAL_NODES_def)
  have h2: "acyclic (linkRel (mindMapLinks travelPotential)) \<and>
    distinct (map target (mindMapLinks travelPotential)) \<and>
    linkPath (mindMapLinks travelPotential) [''Context'', ''Travel''] \<and>
    [''Context'', ''Travel''] \<noteq> [] \<and> hd [''Context'', ''Travel''] = ''Context'' \<and>
    last [''Context'', ''Travel''] = ''Travel'' \<and> length [''Context'', ''Travel''] \<le> 101"
  proof -
    have "acyclic (linkRel (mindMapLinks travelPotential))"
      by (rule acyclic_by_rank [where f = "\<lambda>s. if s = ''Travel'' then 1 else 0"])
         (simp add: travelPotential_def)
    then show ?thesis by (simp add: travelPotential_def)
  qed
  from C6_path_to_root [of "''Travel''" "mindMapLinks travelPotential"
      "mindMapNodes travelPotential" "[''Context'', ''Travel'']"] h1 h2
  show ?thesis by blast
qed

text \<open>
  The claim as stated, for every acyclic link set and every queried id, fails in three
  ways: a node that no link reaches, a node whose first listed parent is not under the
  root, and a node 101 links below the root, where the cap of 100 passes stops the climb
  one step short of the root.
\<close>

lemma chain_ranked: "\<forall>l\<in>set (chainLinks 101). chainRank (source l) < chainRank (target l)"
  by code_simp

lemma chain_tree: "distinct (map target (chainLinks 101)) \<and> linkPath (chainLinks 101) (map chainId [0..<102])"
  by code_simp

lemma chain_cut: "''Context'' \<notin> set (getPathToRoot (chainId 101) (chainLinks 101))"
  by code_simp

theorem C6_path_to_root_counterexample:
  "(acyclic (linkRel []) \<and> ''Context'' \<notin> set (getPathToRoot ''Travel'' [])) \<and>
   (acyclic (linkRel twoParents) \<and> ''Context'' \<notin> set (getPathToRoot ''Recipes'' twoParents)) \<and>
   (acyclic (linkRel (chainLinks 101)) \<and> distinct (map target (chainLinks 101)) \<and>
    linkPath (chainLinks 101) (map chainId [0..<102]) \<and>
    ''Context'' \<notin> set (getPathToRoot (chainId 101) (chainLinks 101)))"
proof (intro conjI)
  show "acyclic (linkRel [])" by (simp add: linkRel_def acyclic_def)
  show "''Context'' \<notin> set (getPathToRoot ''Travel'' [])" by code_simp
  show "acyclic (linkRel twoParents)"
    by (rule acyclic_by_rank [where f = "\<lambda>s. if s = ''Recipes'' then 1 else 0"])
       (simp add: twoParents_def)
  show "''Context'' \<notin> set (getPathToRoot ''Recipes'' twoParents)" by code_simp
  show "acyclic (linkRel (chainLinks 101))"
    using chain_ranked by (rule acyclic_by_rank)
  show "distinct (map target (chainLinks 101))" using chain_tree by blast
  show "linkPath (chainLinks 101) (map chainId [0..<102])" using chain_tree by blast
  show "''Context'' \<notin> set (getPathToRoot (chainId 101) (chainLinks 101))" by (rule chain_cut)
qed


section \<open>Properties of computeDepths\<close>

subsection \<open>The adjacency object\<close>

lemma Context_no_prototype_name: "''Context'' \<notin> set objectPrototypeNames"
  by (simp add: objectPrototypeNames_def)

lemma proto_prototype_name: "''__proto__'' \<in> set objectPrototypeNames"
  by (simp add: objectPrototypeNames_def)

lemma map_of_append_entry:
  "map_of (map (\<lambda>(k, ts). if k = s then (k, ts @ [t]) else (k, ts)) al) u =
     (if u = s then map_option (\<lambda>ts. ts @ [t]) (map_of al u) else map_of al u)"
  by (induction al) auto

lemma children_addLink:
  assumes "addLink l adj = Inr adj'"
  shows "children adj' u = (if u = source l then children adj u @ [target l] else children adj u)"
proof (cases "map_of adj (source l)")
  case None
  with assms have "adj' = adj @ [(source l, [target l])]"
    by (auto simp: addLink_def Let_def getProperty_def split: if_splits)
  with None show ?thesis
    by (auto simp: children_def map_add_def split: option.splits)
next
  case (Some ts)
  with assms have "adj' = map (\<lambda>(k, ts). if k = source l then (k, ts @ [target l]) else (k, ts)) adj"
    by (simp add: addLink_def Let_def getProperty_def)
  with Some show ?thesis
    by (simp add: children_def map_of_append_entry)
qed

lemma addLink_safe:
  assumes "source l \<notin> set objectPrototypeNames"
  shows "\<exists>adj'. addLink l adj = Inr adj'"
  using assms by (simp add: addLink_def Let_def getProperty_def split: option.splits)

lemma addLinks_safe:
  assumes "\<forall>l\<in>set ls. source l \<notin> set objectPrototypeNames"
  shows "\<exists>adj'. addLinks ls adj = Inr adj' \<and>
           (\<forall>u. children adj' u = children adj u @ map target (filter (\<lambda>l. source l = u) ls))"
  using assms
proof (induction ls arbitrary: adj)
  case Nil
  show ?case by simp
next
  case (Cons l ls)
  from Cons.prems have "source l \<notin> set objectPrototypeNames" by simp
  then obtain adj1 where a1: "addLink l adj = Inr adj1"
    using addLink_safe by blast
  from Cons.prems have "\<forall>l\<in>set ls. source l \<notin> set objectPrototypeNames" by simp
  from Cons.IH [OF this, of adj1] obtain adj' where
    a': "addLinks ls adj1 = Inr adj'"
      "\<forall>u. children adj' u = children adj1 u @ map target (filter (\<lambda>l. source l = u) ls)"
    by blast
  have "\<forall>u. children adj' u = children adj u @ map target (filter (\<lambda>k. source k = u) (l # ls))"
    using a'(2) children_addLink [OF a1] by simp
  with a1 a'(1) show ?case by simp
qed

lemma children_links:
  assumes "addLinks ls [] = Inr adj"
    and "\<forall>l\<in>set ls. source l \<notin> set objectPrototypeNames"
  shows "set (children adj u) = {target l | l. l \<in> set ls \<and> source l = u}"
proof -
  from addLinks_safe [OF assms(2), of "[]"] assms(1)
  have "children adj u = children [] u @ map target (filter (\<lambda>l. source l = u) ls)"
    by simp
  moreover have "children [] u = []" by (simp add: children_def)
  ultimately show ?thesis by auto
qed

lemma bfsLoop_Nil: "bfsLoop adj [] dp vis md = Inr (dp, md)"
  by (simp add: bfsLoop.simps)

lemma bfsLoop_Cons:
  assumes "i \<notin> set objectPrototypeNames"
  shows "bfsLoop adj ((i, d) # q) dp vis md =
     (case fold (visitChild d) (children adj i) (q, dp, vis) of
        (q', dp', vis') \<Rightarrow> bfsLoop adj q' dp' vis' (max md d))"
  using assms
  by (cases "map_of adj i") (simp_all add: bfsLoop.simps children_def getProperty_def)

lemma bfsLoop_throws:
  assumes "i \<in> set objectPrototypeNames" and "map_of adj i = None"
  shows "bfsLoop adj ((i, d) # q) dp vis md = Inl TypeError"
  using assms by (simp add: bfsLoop.simps getProperty_def)

subsection \<open>One pass over the children of a node\<close>

lemma fold_visitChild:
  "''__proto__'' \<notin> set cs \<Longrightarrow>
   \<exists>ext. fold (visitChild d) cs (q, dp, vis) =
           (q @ ext, (\<lambda>v. if v \<in> set cs - vis then Some (d + 1) else dp v), vis \<union> set cs) \<and>
         (\<forall>e\<in>set ext. snd e = d + 1) \<and>
         fst ` set ext = set cs - vis \<and>
         distinct (map fst ext)"
proof (induction cs arbitrary: q dp vis)
  case Nil
  show ?case by simp
next
  case (Cons c cs)
  show ?case
  proof (cases "c \<in> vis")
    case True
    have p: "''__proto__'' \<notin> set cs" using Cons.prems by simp
    from Cons.IH [OF p, of q dp vis] obtain ext where
      e: "fold (visitChild d) cs (q, dp, vis) =
           (q @ ext, (\<lambda>v. if v \<in> set cs - vis then Some (d + 1) else dp v), vis \<union> set cs)"
        "\<forall>e\<in>set ext. snd e = d + 1" "fst ` set ext = set cs - vis" "distinct (map fst ext)"
      by blast
    have 1: "(\<lambda>v. if v \<in> set cs - vis then Some (d + 1) else dp v)
           = (\<lambda>v. if v \<in> set (c # cs) - vis then Some (d + 1) else dp v)"
      using True by auto
    have 2: "vis \<union> set cs = vis \<union> set (c # cs)" using True by auto
    have 3: "set cs - vis = set (c # cs) - vis" using True by auto
    show ?thesis
      apply (rule exI [of _ ext])
      using e True unfolding 1 2 3 by (simp add: visitChild_apply)
  next
    case False
    have p: "''__proto__'' \<notin> set cs" using Cons.prems by simp
    have sd: "\<And>k. setDepth dp c k = dp(c \<mapsto> k)"
      using Cons.prems by (auto simp: setDepth_def)
    from Cons.IH [OF p, of "q @ [(c, d + 1)]" "dp(c \<mapsto> d + 1)" "insert c vis"] obtain ext where
      e: "fold (visitChild d) cs (q @ [(c, d + 1)], dp(c \<mapsto> d + 1), insert c vis) =
           ((q @ [(c, d + 1)]) @ ext,
            (\<lambda>v. if v \<in> set cs - insert c vis then Some (d + 1) else (dp(c \<mapsto> d + 1)) v),
            insert c vis \<union> set cs)"
        "\<forall>e\<in>set ext. snd e = d + 1" "fst ` set ext = set cs - insert c vis"
        "distinct (map fst ext)"
      by blast
    have 1: "(\<lambda>v. if v \<in> set cs - insert c vis then Some (d + 1) else (dp(c \<mapsto> d + 1)) v)
           = (\<lambda>v. if v \<in> set (c # cs) - vis then Some (d + 1) else dp v)"
      using False by auto
    have 2: "insert c vis \<union> set cs = vis \<union> set (c # cs)" by auto
    have 3: "fst ` set ((c, d + 1) # ext) = set (c # cs) - vis"
      using e(3) False by auto
    have 4: "distinct (map fst ((c, d + 1) # ext))"
      using e(3,4) by auto
    have 5: "\<forall>e\<in>set ((c, d + 1) # ext). snd e = d + 1"
      using e(2) by simp
    have "fold (visitChild d) (c # cs) (q, dp, vis) =
           (q @ ((c, d + 1) # ext), (\<lambda>v. if v \<in> set (c # cs) - vis then Some (d + 1) else dp v),
            vis \<union> set (c # cs))"
      using e(1) False unfolding 1 2 by (simp add: visitChild_apply sd)
    with 3 4 5 show ?thesis by blast
  qed
qed


subsection \<open>The invariant of the traversal\<close>

lemma bfsInv_init: "bfsInv ls [(''Context'', 0)] [''Context'' \<mapsto> 0] 0"
  by (auto simp: bfsInv_def)

lemma bfsInv_step:
  assumes inv: "bfsInv ls ((u, d) # q) dp md"
    and cs: "set cs = {target l | l. l \<in> set ls \<and> source l = u}"
    and ext: "\<forall>e\<in>set ext. snd e = d + 1" "fst ` set ext = set cs - dom dp" "distinct (map fst ext)"
    and dp': "dp' = (\<lambda>v. if v \<in> set cs - dom dp then Some (d + 1) else dp v)"
  shows "bfsInv ls (q @ ext) dp' (max md d)"
proof -
  from inv have qe: "\<And>e. e \<in> set q \<Longrightarrow> dp (fst e) = Some (snd e) \<and> md \<le> snd e \<and> snd e \<le> md + 1"
    and ud: "dp u = Some d" "md \<le> d" "d \<le> md + 1"
    and dist: "distinct (map fst ((u, d) # q))"
    and srt: "sorted (map snd ((u, d) # q))"
    and reach: "\<And>v k. dp v = Some k \<Longrightarrow> reachIn ls k v \<and> k \<le> md + 1"
    and finished: "\<And>w k. dp w = Some k \<Longrightarrow> w \<notin> fst ` set ((u, d) # q) \<Longrightarrow>
          k \<le> md \<and> (\<forall>l\<in>set ls. source l = w \<longrightarrow> (\<exists>j. dp (target l) = Some j \<and> j \<le> k + 1))"
    and root: "dp ''Context'' = Some 0"
    by (auto simp: bfsInv_def)
  have md: "max md d = d" using ud(2) by simp
  have old: "\<And>v. v \<in> dom dp \<Longrightarrow> dp' v = dp v" by (simp add: dp')
  have new: "\<And>v. v \<in> set cs \<Longrightarrow> v \<notin> dom dp \<Longrightarrow> dp' v = Some (d + 1)" by (simp add: dp')
  have dp'_cases: "\<And>v k. dp' v = Some k \<Longrightarrow>
      (dp v = Some k) \<or> (v \<in> set cs \<and> v \<notin> dom dp \<and> k = d + 1)"
    by (auto simp: dp' split: if_splits)
  have qdom: "\<And>e. e \<in> set q \<Longrightarrow> fst e \<in> dom dp" using qe by auto
  have extnew: "\<And>e. e \<in> set ext \<Longrightarrow> fst e \<in> set cs \<and> fst e \<notin> dom dp \<and> snd e = d + 1"
    using ext(1,2) by auto
  have dq: "\<And>e. e \<in> set q \<Longrightarrow> d \<le> snd e" using srt by auto
  have c1: "\<forall>e\<in>set (q @ ext). dp' (fst e) = Some (snd e) \<and> max md d \<le> snd e \<and> snd e \<le> max md d + 1"
  proof
    fix e assume "e \<in> set (q @ ext)"
    then consider "e \<in> set q" | "e \<in> set ext" by auto
    then show "dp' (fst e) = Some (snd e) \<and> max md d \<le> snd e \<and> snd e \<le> max md d + 1"
    proof cases
      case 1
      then have "dp' (fst e) = Some (snd e)" using old qdom qe by simp
      moreover have "d \<le> snd e" using 1 dq by simp
      moreover have "snd e \<le> d + 1" using qe [OF 1] ud(2) by simp
      ultimately show ?thesis using md by simp
    next
      case 2
      then show ?thesis using extnew [OF 2] new md by simp
    qed
  qed
  have c2: "distinct (map fst (q @ ext))"
  proof -
    have "fst ` set q \<inter> fst ` set ext = {}" using qdom ext(2) by auto
    then show ?thesis using dist ext(3) by simp
  qed
  have c3: "sorted (map snd (q @ ext))"
  proof -
    have "sorted (map snd q)" using srt by simp
    moreover have "sorted (map snd ext)"
      using ext(1) by (simp add: sorted_wrt_iff_nth_less) 
    moreover have "\<forall>a\<in>set (map snd q). \<forall>b\<in>set (map snd ext). a \<le> b"
      using qe ud(2) ext(1) by fastforce
    ultimately show ?thesis by (simp add: sorted_append)
  qed
  have c4: "\<forall>v k. dp' v = Some k \<longrightarrow> reachIn ls k v \<and> k \<le> max md d + 1"
  proof (intro allI impI)
    fix v k assume "dp' v = Some k"
    then consider "dp v = Some k" | "v \<in> set cs" "v \<notin> dom dp" "k = d + 1"
      using dp'_cases by blast
    then show "reachIn ls k v \<and> k \<le> max md d + 1"
    proof cases
      case 1
      then show ?thesis using reach [OF 1] ud(2) md by simp
    next
      case 2
      from 2(1) cs obtain l where "l \<in> set ls" "source l = u" "target l = v" by auto
      moreover have "reachIn ls d u" using reach [OF ud(1)] by simp
      ultimately have "reachIn ls (Suc d) v" by auto
      then show ?thesis using 2(3) md by simp
    qed
  qed
  have c5: "\<forall>w k. dp' w = Some k \<longrightarrow> w \<notin> fst ` set (q @ ext) \<longrightarrow>
          k \<le> max md d \<and> (\<forall>l\<in>set ls. source l = w \<longrightarrow> (\<exists>j. dp' (target l) = Some j \<and> j \<le> k + 1))"
  proof (intro allI impI)
    fix w k assume w: "dp' w = Some k" and nq: "w \<notin> fst ` set (q @ ext)"
    have wold: "dp w = Some k"
    proof -
      from w consider "dp w = Some k" | "w \<in> set cs" "w \<notin> dom dp" using dp'_cases by blast
      then show ?thesis
      proof cases
        case 1 then show ?thesis .
      next
        case 2
        then have "w \<in> fst ` set ext" using ext(2) by simp
        with nq show ?thesis by auto
      qed
    qed
    show "k \<le> max md d \<and> (\<forall>l\<in>set ls. source l = w \<longrightarrow> (\<exists>j. dp' (target l) = Some j \<and> j \<le> k + 1))"
    proof (cases "w = u")
      case True
      then have k: "k = d" using wold ud(1) by simp
      have "\<forall>l\<in>set ls. source l = w \<longrightarrow> (\<exists>j. dp' (target l) = Some j \<and> j \<le> k + 1)"
      proof (intro ballI impI)
        fix l assume l: "l \<in> set ls" "source l = w"
        then have t: "target l \<in> set cs" using cs True by auto
        show "\<exists>j. dp' (target l) = Some j \<and> j \<le> k + 1"
        proof (cases "target l \<in> dom dp")
          case False
          then show ?thesis using new [OF t] k by simp
        next
          case in_dom: True
          then obtain j where j: "dp (target l) = Some j" by auto
          then have "j \<le> md + 1" using reach by blast
          then have "j \<le> k + 1" using ud(2) k by simp
          then show ?thesis using old [OF in_dom] j by simp
        qed
      qed
      then show ?thesis using k md by simp
    next
      case False
      then have "w \<notin> fst ` set ((u, d) # q)" using nq by auto
      from finished [OF wold this]
      have kmd: "k \<le> md"
        and links: "\<forall>l\<in>set ls. source l = w \<longrightarrow> (\<exists>j. dp (target l) = Some j \<and> j \<le> k + 1)"
        by auto
      have "\<forall>l\<in>set ls. source l = w \<longrightarrow> (\<exists>j. dp' (target l) = Some j \<and> j \<le> k + 1)"
      proof (intro ballI impI)
        fix l assume l: "l \<in> set ls" "source l = w"
        with links obtain j where j: "dp (target l) = Some j" "j \<le> k + 1" by blast
        then have "target l \<in> dom dp" by auto
        then show "\<exists>j. dp' (target l) = Some j \<and> j \<le> k + 1" using old j by simp
      qed
      then show ?thesis using kmd ud(2) md by simp
    qed
  qed
  have c6: "dp' ''Context'' = Some 0" using root old by (simp add: domI)
  have c7: "\<exists>v. dp' v = Some (max md d)"
  proof -
    have "dp' u = Some d" using ud(1) old by (simp add: domI)
    then show ?thesis using md by auto
  qed
  from c1 c2 c3 c4 c5 c6 c7 show ?thesis
    unfolding bfsInv_def by blast
qed


lemma children_adjTargets: "set (children adj i) \<subseteq> adjTargets adj"
proof (cases "map_of adj i")
  case None
  then show ?thesis by (simp add: children_def)
next
  case (Some cs)
  then show ?thesis using map_of_adjTargets [OF Some] by (simp add: children_def)
qed

text \<open>
  When no id in the queue and no link target is a member name of the prototype, the loop
  returns, and what it returns satisfies the invariant with the queue empty.
\<close>

lemma bfsLoop_inv:
  assumes adj: "\<And>u. set (children adj u) = {target l | l. l \<in> set ls \<and> source l = u}"
    and safe: "\<And>l. l \<in> set ls \<Longrightarrow> target l \<notin> set objectPrototypeNames"
  shows "bfsInv ls q dp md \<Longrightarrow> vis = dom dp \<Longrightarrow>
         (\<forall>e\<in>set q. fst e \<notin> set objectPrototypeNames) \<Longrightarrow>
         \<exists>dp' md'. bfsLoop adj q dp vis md = Inr (dp', md') \<and> bfsInv ls [] dp' md'"
proof (induction "card (adjTargets adj - vis) + length q" arbitrary: q dp vis md rule: less_induct)
  case less
  show ?case
  proof (cases q)
    case Nil
    with less.prems(1) show ?thesis by (simp add: bfsLoop_Nil)
  next
    case (Cons e q0)
    obtain i d where e: "e = (i, d)" by (cases e)
    have i: "i \<notin> set objectPrototypeNames" using less.prems(3) Cons e by simp
    have cs_safe: "\<And>c. c \<in> set (children adj i) \<Longrightarrow> c \<notin> set objectPrototypeNames"
      using adj safe by auto
    have np: "''__proto__'' \<notin> set (children adj i)"
      using cs_safe proto_prototype_name by blast
    define dp' where "dp' = (\<lambda>v. if v \<in> set (children adj i) - dom dp then Some (d + 1) else dp v)"
    from fold_visitChild [OF np, of d q0 dp vis] less.prems(2)
    obtain ext where f: "fold (visitChild d) (children adj i) (q0, dp, vis) =
           (q0 @ ext, dp', vis \<union> set (children adj i))"
      and ext: "\<forall>e\<in>set ext. snd e = d + 1" "fst ` set ext = set (children adj i) - dom dp"
        "distinct (map fst ext)"
      unfolding dp'_def by blast
    have inv': "bfsInv ls (q0 @ ext) dp' (max md d)"
    proof (rule bfsInv_step)
      show "bfsInv ls ((i, d) # q0) dp md" using less.prems(1) Cons e by simp
      show "set (children adj i) = {target l | l. l \<in> set ls \<and> source l = i}" by (rule adj)
      show "\<forall>e\<in>set ext. snd e = d + 1" by (rule ext(1))
      show "fst ` set ext = set (children adj i) - dom dp" by (rule ext(2))
      show "distinct (map fst ext)" by (rule ext(3))
      show "dp' = (\<lambda>v. if v \<in> set (children adj i) - dom dp then Some (d + 1) else dp v)"
        by (rule dp'_def)
    qed
    have vis': "vis \<union> set (children adj i) = dom dp'"
      using less.prems(2) by (auto simp: dp'_def split: if_splits)
    have q': "\<forall>e\<in>set (q0 @ ext). fst e \<notin> set objectPrototypeNames"
    proof
      fix e' assume "e' \<in> set (q0 @ ext)"
      then consider "e' \<in> set q0" | "e' \<in> set ext" by auto
      then show "fst e' \<notin> set objectPrototypeNames"
      proof cases
        case 1
        then show ?thesis using less.prems(3) Cons by simp
      next
        case 2
        then have "fst e' \<in> set (children adj i)" using ext(2) by auto
        then show ?thesis by (rule cs_safe)
      qed
    qed
    have "finite (adjTargets adj)" by (simp add: adjTargets_def)
    then have "card (adjTargets adj - (vis \<union> set (children adj i))) + length (q0 @ ext)
          = card (adjTargets adj - vis) + length q0"
      using children_adjTargets f by (rule fold_visitChild_measure)
    then have "card (adjTargets adj - (vis \<union> set (children adj i))) + length (q0 @ ext)
          < card (adjTargets adj - vis) + length q"
      using Cons by simp
    from less.hyps [OF this inv' vis' q']
    obtain dp'' md'' where
      "bfsLoop adj (q0 @ ext) dp' (vis \<union> set (children adj i)) (max md d) = Inr (dp'', md'')"
      "bfsInv ls [] dp'' md''"
      by blast
    then show ?thesis using Cons e f i by (simp add: bfsLoop_Cons)
  qed
qed

lemma computeDepths_inv:
  assumes "safeLinks ls"
  shows "\<exists>dp md. computeDepths ns ls = Inr (dp, md) \<and> bfsInv ls [] dp md"
proof -
  have src: "\<forall>l\<in>set ls. source l \<notin> set objectPrototypeNames"
    using assms by (simp add: safeLinks_def)
  from addLinks_safe [OF src, of "[]"] obtain adj where adj: "addLinks ls [] = Inr adj"
    by blast
  have "\<exists>dp md. bfsLoop adj [(''Context'', 0)] [''Context'' \<mapsto> 0] {''Context''} 0 = Inr (dp, md) \<and>
          bfsInv ls [] dp md"
  proof (rule bfsLoop_inv)
    show "\<And>u. set (children adj u) = {target l | l. l \<in> set ls \<and> source l = u}"
      using adj src by (rule children_links)
    show "\<And>l. l \<in> set ls \<Longrightarrow> target l \<notin> set objectPrototypeNames"
      using assms by (simp add: safeLinks_def)
    show "bfsInv ls [(''Context'', 0)] [''Context'' \<mapsto> 0] 0" by (rule bfsInv_init)
    show "{''Context''} = dom [''Context'' \<mapsto> (0::nat)]" by simp
    show "\<forall>e\<in>set [(''Context'', 0::nat)]. fst e \<notin> set objectPrototypeNames"
      by (simp add: Context_no_prototype_name)
  qed
  then show ?thesis using adj by (simp add: computeDepths_def setDepth_def)
qed

subsection \<open>What the invariant says when the queue is empty\<close>

lemma bfsInv_final_upper:
  assumes "bfsInv ls [] dp md"
  shows "reachIn ls n v \<Longrightarrow> \<exists>k\<le>n. dp v = Some k"
proof (induction n arbitrary: v)
  case 0
  then show ?case using assms by (simp add: bfsInv_def)
next
  case (Suc n)
  then obtain l where l: "l \<in> set ls" "target l = v" "reachIn ls n (source l)" by auto
  from Suc.IH [OF l(3)] obtain k where k: "k \<le> n" "dp (source l) = Some k" by blast
  from assms k(2) l(1) obtain j where "dp (target l) = Some j" "j \<le> k + 1"
    unfolding bfsInv_def by fastforce
  with k(1) l(2) show ?case by auto
qed

lemma bfsInv_final_distance:
  assumes "bfsInv ls [] dp md"
  shows "dp v = bfsDistance ls v"
proof (cases "dp v")
  case None
  have "\<not> (\<exists>n. reachIn ls n v)"
    using bfsInv_final_upper [OF assms] None by fastforce
  with None show ?thesis by (simp add: bfsDistance_def)
next
  case (Some k)
  have r: "reachIn ls k v" using assms Some by (auto simp: bfsInv_def)
  have "(LEAST n. reachIn ls n v) = k"
  proof (rule Least_equality)
    show "reachIn ls k v" by (rule r)
  next
    fix n assume "reachIn ls n v"
    from bfsInv_final_upper [OF assms this] Some show "k \<le> n" by auto
  qed
  with Some r show ?thesis by (auto simp: bfsDistance_def)
qed

lemma bfsInv_final_max:
  assumes "bfsInv ls [] dp md"
  shows "(\<exists>v. dp v = Some md) \<and> (\<forall>v k. dp v = Some k \<longrightarrow> k \<le> md)"
  using assms by (auto simp: bfsInv_def)



lemma reachIn_vertex: "reachIn ls n v \<Longrightarrow> v = ''Context'' \<or> v \<in> target ` set ls"
  by (cases n) auto

lemma bfsDistance_reach: "bfsDistance ls v = Some k \<Longrightarrow> reachIn ls k v"
  by (auto simp: bfsDistance_def split: if_splits intro: LeastI)

text \<open>
  On links whose ends are no member names of the prototype, \<open>computeDepths\<close> returns the
  distance map and the largest distance.
\<close>

lemma computeDepths_correct:
  assumes "safeLinks ls"
  shows "\<exists>md. computeDepths ns ls = Inr (bfsDistance ls, md) \<and>
           (\<exists>v. bfsDistance ls v = Some md) \<and>
           (\<forall>v d. bfsDistance ls v = Some d \<longrightarrow> d \<le> md)"
proof -
  from computeDepths_inv [OF assms, of ns] obtain dp md where
    c: "computeDepths ns ls = Inr (dp, md)" and inv: "bfsInv ls [] dp md"
    by blast
  have eq: "dp = bfsDistance ls"
    by (rule ext) (rule bfsInv_final_distance [OF inv])
  from bfsInv_final_max [OF inv] eq c show ?thesis by auto
qed

lemma depthOf_own:
  assumes "i \<notin> set objectPrototypeNames"
  shows "depthOf dp i = Own (case dp i of None \<Rightarrow> 0 | Some d \<Rightarrow> d)"
  using assms by (simp add: depthOf_def getProperty_def split: option.splits)

subsection \<open>Ids that are member names of the prototype\<close>

lemma throws: "isl r \<Longrightarrow> r = Inl TypeError"
  by (cases r) (auto intro: error.exhaust)

lemma constructor_distance:
  "bfsDistance [\<lparr>source = ''Context'', target = ''constructor''\<rparr>] ''constructor'' = Some 1"
proof -
  let ?ls = "[\<lparr>source = ''Context'', target = ''constructor''\<rparr>]"
  have r: "reachIn ?ls 1 ''constructor''" by simp
  have "(LEAST n. reachIn ?ls n ''constructor'') = 1"
  proof (rule Least_equality)
    show "reachIn ?ls 1 ''constructor''" by (rule r)
  next
    fix n assume "reachIn ?ls n ''constructor''"
    then have "n \<noteq> 0" by (cases n) auto
    then show "1 \<le> n" by simp
  qed
  with r show ?thesis unfolding bfsDistance_def by (simp only: exI [of _ 1] if_True)
qed

lemma bfsDistance_no_links: "bfsDistance [] v = (if v = ''Context'' then Some 0 else None)"
proof -
  have r: "\<And>n. reachIn [] n v \<longleftrightarrow> n = 0 \<and> v = ''Context''"
    by (case_tac n) auto
  show ?thesis by (simp add: bfsDistance_def r)
qed

lemma computeDepths_no_links: "computeDepths ns [] = Inr (bfsDistance [], 0)"
proof -
  have "safeLinks []" by (simp add: safeLinks_def)
  from computeDepths_correct [OF this, of ns] obtain md where
    c: "computeDepths ns [] = Inr (bfsDistance [], md)" and "\<exists>v. bfsDistance [] v = Some md"
    by blast
  then have "md = 0" by (auto simp: bfsDistance_no_links split: if_splits)
  with c show ?thesis by simp
qed

text \<open>
  Claim C5 (depth correctness). On links whose ends are no member names of
  \<open>Object.prototype\<close> the claim holds (\<open>computeDepths_correct\<close>, \<open>depthOf_own\<close>). It fails
  otherwise: with the single link from the root to a node ``constructor'', whose
  distance is 1, and with a link that starts at ``toString'', the call throws; and for
  an unlinked node ``valueOf'' the layout does not read depth 0 but an inherited
  function, which makes its tier height NaN.
\<close>

theorem C5_depth_prototype_names:
  "bfsDistance [\<lparr>source = ''Context'', target = ''constructor''\<rparr>] ''constructor'' = Some 1 \<and>
   computeDepths [] [\<lparr>source = ''Context'', target = ''constructor''\<rparr>] = Inl TypeError \<and>
   computeDepths [] [\<lparr>source = ''toString'', target = ''Travel''\<rparr>] = Inl TypeError \<and>
   computeDepths [] [] = Inr (bfsDistance [], 0) \<and>
   bfsDistance [] ''valueOf'' = None \<and>
   depthOf (bfsDistance []) ''valueOf'' = Inherited \<and>
   tierY (depthOf (bfsDistance []) ''valueOf'') = NaN"
proof (intro conjI)
  show "bfsDistance [\<lparr>source = ''Context'', target = ''constructor''\<rparr>] ''constructor'' = Some 1"
    by (rule constructor_distance)
  have "isl (computeDepths [] [\<lparr>source = ''Context'', target = ''constructor''\<rparr>])"
    by code_simp
  then show "computeDepths [] [\<lparr>source = ''Context'', target = ''constructor''\<rparr>] = Inl TypeError"
    by (rule throws)
  have "isl (computeDepths [] [\<lparr>source = ''toString'', target = ''Travel''\<rparr>])"
    by code_simp
  then show "computeDepths [] [\<lparr>source = ''toString'', target = ''Travel''\<rparr>] = Inl TypeError"
    by (rule throws)
  show "computeDepths [] [] = Inr (bfsDistance [], 0)"
    by (rule computeDepths_no_links)
  show n: "bfsDistance [] ''valueOf'' = None"
    by (simp add: bfsDistance_no_links)
  show d: "depthOf (bfsDistance []) ''valueOf'' = Inherited"
    by (simp add: depthOf_def getProperty_def n objectPrototypeNames_def)
  show "tierY (depthOf (bfsDistance []) ''valueOf'') = NaN"
    by (simp add: d tierY_def)
qed

section \<open>The root and the layout preparation\<close>

lemma session_root_first:
  "0 < length (mindMapNodes (session toLowerCase us)) \<and>
   mindMapNodes (session toLowerCase us) ! 0 = INITIAL_NODES ! 0"
proof -
  have "promotedFrom (mindMapNodes INITIAL_STATE) (mindMapNodes (session toLowerCase us))"
    unfolding session_def by (rule updates_promotedFrom)
  then show ?thesis
    by (auto simp: promotedFrom_def INITIAL_STATE_def INITIAL_NODES_def)
qed

text \<open>
  After any session the first node of the list is the initial root node, and on links
  whose ends are no member names of the prototype the root has depth 0.
\<close>

lemma session_root:
  "mindMapNodes (session toLowerCase us) \<noteq> [] \<and>
   hd (mindMapNodes (session toLowerCase us)) = hd INITIAL_NODES \<and>
   (\<exists>n\<in>set (mindMapNodes (session toLowerCase us)). id_n n = ''Context'')"
proof -
  from session_root_first [of toLowerCase us]
  have ne: "mindMapNodes (session toLowerCase us) \<noteq> []"
    and h: "hd (mindMapNodes (session toLowerCase us)) = hd INITIAL_NODES"
    by (auto simp: hd_conv_nth INITIAL_NODES_def)
  from ne have "hd (mindMapNodes (session toLowerCase us)) \<in> set (mindMapNodes (session toLowerCase us))"
    by simp
  moreover have "id_n (hd (mindMapNodes (session toLowerCase us))) = ''Context''"
    using h by (simp add: INITIAL_NODES_def)
  ultimately have "\<exists>n\<in>set (mindMapNodes (session toLowerCase us)). id_n n = ''Context''" by blast
  with ne h show ?thesis by simp
qed

lemma computeDepths_root:
  assumes "safeLinks ls"
  shows "\<exists>dp md. computeDepths ns ls = Inr (dp, md) \<and> dp ''Context'' = Some 0 \<and>
           depthOf dp ''Context'' = Own 0"
proof -
  from computeDepths_inv [OF assms, of ns] obtain dp md where
    c: "computeDepths ns ls = Inr (dp, md)" and inv: "bfsInv ls [] dp md"
    by blast
  from inv have "dp ''Context'' = Some 0" by (simp add: bfsInv_def)
  with c show ?thesis by (simp add: depthOf_own Context_no_prototype_name)
qed

text \<open>
  Claim C4 (root invariant). The session that merges the single proposal ``constructor''
  under the root keeps the root node and links it to the new node; on that graph
  \<open>computeDepths\<close> throws when it takes ``constructor'' from the queue, so no depth is
  assigned to the root.
\<close>

theorem C4_root_prototype_name:
  "map id_n (mindMapNodes constructorSession) = [''Context'', ''constructor''] \<and>
   mindMapLinks constructorSession = [\<lparr>source = ''Context'', target = ''constructor''\<rparr>] \<and>
   computeDepths (mindMapNodes constructorSession) (mindMapLinks constructorSession) = Inl TypeError"
proof (intro conjI)
  show "map id_n (mindMapNodes constructorSession) = [''Context'', ''constructor'']"
    by code_simp
  show "mindMapLinks constructorSession = [\<lparr>source = ''Context'', target = ''constructor''\<rparr>]"
    by code_simp
  have "isl (computeDepths (mindMapNodes constructorSession) (mindMapLinks constructorSession))"
    by code_simp
  then show "computeDepths (mindMapNodes constructorSession) (mindMapLinks constructorSession)
      = Inl TypeError"
    by (rule throws)
qed

lemma simulationNodes_part002_nth:
  assumes "i < length ns"
  shows "simulationNodes_part002 w cache ns ! i =
     (ns ! i,
      case cache (id_n (ns ! i)) of
        None \<Rightarrow> \<lparr>pos_x = Finite (real (containerWidth w) / 2), pos_y = Finite 50,
                  pos_vx = Finite 0, pos_vy = Finite 0\<rparr>
      | Some old \<Rightarrow> old)"
  using assms by (simp add: simulationNodes_part002_def Let_def split: option.splits)

lemma simulationNodes_safe:
  assumes "safeLinks ls"
  shows "simulationNodes w cache ns ls =
     Inr (map (\<lambda>n. (n, case cache (id_n n) of
                          None \<Rightarrow> \<lparr>pos_x = Finite (real (containerWidth w) / 2),
                                    pos_y = tierY (depthOf (bfsDistance ls) (id_n n)),
                                    pos_vx = Finite 0, pos_vy = Finite 0\<rparr>
                        | Some old \<Rightarrow> old)) ns)"
proof -
  from computeDepths_correct [OF assms, of ns] obtain md where
    "computeDepths ns ls = Inr (bfsDistance ls, md)" by blast
  then show ?thesis
    by (simp add: simulationNodes_def Let_def split: option.splits)
qed

text \<open>
  Claim C9 (warm start), as amended. Take links whose ends are no member names of
  \<open>Object.prototype\<close> and a node whose id is none either. Both layouts prepare one entry
  per node, in order, and give a node with a cached position that position and velocity.
  A node without one starts at the horizontal centre of the container with zero
  velocity; its height is its depth times the tier spacing plus the top padding in the
  layout of src/components/MindMap.tsx, where the depth is the distance from the root or
  0, and is 50 in the variant of src/unnamed/part_002.
\<close>

theorem C9_layout_warm_start:
  assumes "safeLinks ls" and "i < length ns" and "id_n (ns ! i) \<notin> set objectPrototypeNames"
  shows "\<exists>prepared.
           simulationNodes w cache ns ls = Inr prepared \<and>
           length prepared = length ns \<and>
           fst (prepared ! i) = ns ! i \<and>
           (\<forall>old. cache (id_n (ns ! i)) = Some old \<longrightarrow> snd (prepared ! i) = old) \<and>
           (cache (id_n (ns ! i)) = None \<longrightarrow>
              snd (prepared ! i) =
                \<lparr>pos_x = Finite (real (containerWidth w) / 2),
                 pos_y = Finite (real ((case bfsDistance ls (id_n (ns ! i)) of None \<Rightarrow> 0 | Some d \<Rightarrow> d)
                                       * Y_SPACING + PADDING_TOP)),
                 pos_vx = Finite 0, pos_vy = Finite 0\<rparr>) \<and>
           length (simulationNodes_part002 w cache ns) = length ns \<and>
           fst (simulationNodes_part002 w cache ns ! i) = ns ! i \<and>
           (\<forall>old. cache (id_n (ns ! i)) = Some old \<longrightarrow>
              snd (simulationNodes_part002 w cache ns ! i) = old) \<and>
           (cache (id_n (ns ! i)) = None \<longrightarrow>
              snd (simulationNodes_part002 w cache ns ! i) =
                \<lparr>pos_x = Finite (real (containerWidth w) / 2), pos_y = Finite 50,
                 pos_vx = Finite 0, pos_vy = Finite 0\<rparr>)"
proof -
  have t: "tierY (depthOf (bfsDistance ls) (id_n (ns ! i)))
      = Finite (real ((case bfsDistance ls (id_n (ns ! i)) of None \<Rightarrow> 0 | Some d \<Rightarrow> d)
                       * Y_SPACING + PADDING_TOP))"
    by (simp add: depthOf_own [OF assms(3)] tierY_def)
  have v: "length (simulationNodes_part002 w cache ns) = length ns"
    by (simp add: simulationNodes_part002_def)
  show ?thesis
    unfolding simulationNodes_safe [OF assms(1)]
    using assms(2) t v
    by (auto simp: simulationNodes_part002_nth split: option.splits)
qed

lemma travel_safe: "safeLinks (mindMapLinks travelPotential)"
  by (simp add: safeLinks_def travelPotential_def objectPrototypeNames_def)

lemma travel_depths:
  "(case computeDepths (mindMapNodes travelPotential) (mindMapLinks travelPotential) of
      Inl e \<Rightarrow> False
    | Inr (depths, maxDepth) \<Rightarrow> depths ''Travel'' = Some 1 \<and> maxDepth = 1)"
  by code_simp

lemma travel_distance: "bfsDistance (mindMapLinks travelPotential) ''Travel'' = Some 1"
proof -
  from computeDepths_correct [OF travel_safe, of "mindMapNodes travelPotential"] obtain md where
    "computeDepths (mindMapNodes travelPotential) (mindMapLinks travelPotential)
       = Inr (bfsDistance (mindMapLinks travelPotential), md)"
    by blast
  with travel_depths show ?thesis by simp
qed

theorem C9_layout_warm_start_witness:
  "safeLinks (mindMapLinks travelPotential) \<and>
   1 < length (mindMapNodes travelPotential) \<and>
   id_n (mindMapNodes travelPotential ! 1) \<notin> set objectPrototypeNames \<and>
   cachedContext (id_n (mindMapNodes travelPotential ! 1)) = None \<and>
   0 < length (mindMapNodes travelPotential) \<and>
   id_n (mindMapNodes travelPotential ! 0) \<notin> set objectPrototypeNames \<and>
   cachedContext (id_n (mindMapNodes travelPotential ! 0))
     = Some \<lparr>pos_x = Finite 412, pos_y = Finite 61, pos_vx = Finite 3, pos_vy = Finite (-1)\<rparr> \<and>
   (\<exists>prepared.
      simulationNodes 0 cachedContext (mindMapNodes travelPotential) (mindMapLinks travelPotential)
        = Inr prepared \<and>
      snd (prepared ! 1)
        = \<lparr>pos_x = Finite 400, pos_y = Finite 180, pos_vx = Finite 0, pos_vy = Finite 0\<rparr> \<and>
      snd (prepared ! 0)
        = \<lparr>pos_x = Finite 412, pos_y = Finite 61, pos_vx = Finite 3, pos_vy = Finite (-1)\<rparr>) \<and>
   snd (simulationNodes_part002 0 cachedContext (mindMapNodes travelPotential) ! 1)
     = \<lparr>pos_x = Finite 400, pos_y = Finite 50, pos_vx = Finite 0, pos_vy = Finite 0\<rparr> \<and>
   snd (simulationNodes_part002 0 cachedContext (mindMapNodes travelPotential) ! 0)
     = \<lparr>pos_x = Finite 412, pos_y = Finite 61, pos_vx = Finite 3, pos_vy = Finite (-1)\<rparr>"
proof -
  have h1: "1 < length (mindMapNodes travelPotential)"
    by (simp add: travelPotential_def INITIAL_NODES_def)
  have n: "id_n (mindMapNodes travelPotential ! 1) = ''Travel''"
    by (simp add: travelPotential_def INITIAL_NODES_def)
  have h2: "id_n (mindMapNodes travelPotential ! 1) \<notin> set objectPrototypeNames"
    unfolding n by (simp add: objectPrototypeNames_def)
  have c: "cachedContext (id_n (mindMapNodes travelPotential ! 1)) = None"
    unfolding n by (simp add: cachedContext_def)
  from C9_layout_warm_start [OF travel_safe h1 h2, of 0 cachedContext] obtain prepared where
    p: "simulationNodes 0 cachedContext (mindMapNodes travelPotential) (mindMapLinks travelPotential)
          = Inr prepared"
    and a: "cachedContext (id_n (mindMapNodes travelPotential ! 1)) = None \<longrightarrow>
      snd (prepared ! 1) =
        \<lparr>pos_x = Finite (real (containerWidth 0) / 2),
         pos_y = Finite (real ((case bfsDistance (mindMapLinks travelPotential)
                                      (id_n (mindMapNodes travelPotential ! 1)) of
                                  None \<Rightarrow> 0 | Some d \<Rightarrow> d) * Y_SPACING + PADDING_TOP)),
         pos_vx = Finite 0, pos_vy = Finite 0\<rparr>"
    and b: "cachedContext (id_n (mindMapNodes travelPotential ! 1)) = None \<longrightarrow>
      snd (simulationNodes_part002 0 cachedContext (mindMapNodes travelPotential) ! 1) =
        \<lparr>pos_x = Finite (real (containerWidth 0) / 2), pos_y = Finite 50,
         pos_vx = Finite 0, pos_vy = Finite 0\<rparr>"
    by (elim exE conjE) (rule that, assumption+)
  have 1: "snd (prepared ! 1)
      = \<lparr>pos_x = Finite 400, pos_y = Finite 180, pos_vx = Finite 0, pos_vy = Finite 0\<rparr>"
    using a c unfolding n travel_distance
    by (simp add: containerWidth_def Y_SPACING_def PADDING_TOP_def)
  have 2: "snd (simulationNodes_part002 0 cachedContext (mindMapNodes travelPotential) ! 1)
      = \<lparr>pos_x = Finite 400, pos_y = Finite 50, pos_vx = Finite 0, pos_vy = Finite 0\<rparr>"
    using b c by (simp add: containerWidth_def)
  have h0: "0 < length (mindMapNodes travelPotential)"
    by (simp add: travelPotential_def INITIAL_NODES_def)
  have n0: "id_n (mindMapNodes travelPotential ! 0) = ''Context''"
    by (simp add: travelPotential_def INITIAL_NODES_def)
  have g0: "id_n (mindMapNodes travelPotential ! 0) \<notin> set objectPrototypeNames"
    unfolding n0 by (rule Context_no_prototype_name)
  have c0: "cachedContext (id_n (mindMapNodes travelPotential ! 0))
      = Some \<lparr>pos_x = Finite 412, pos_y = Finite 61, pos_vx = Finite 3, pos_vy = Finite (-1)\<rparr>"
    unfolding n0 by (simp add: cachedContext_def)
  from C9_layout_warm_start [OF travel_safe h0 g0, of 0 cachedContext] obtain prepared0 where
    p0: "simulationNodes 0 cachedContext (mindMapNodes travelPotential) (mindMapLinks travelPotential)
          = Inr prepared0"
    and a0: "\<forall>old. cachedContext (id_n (mindMapNodes travelPotential ! 0)) = Some old \<longrightarrow>
      snd (prepared0 ! 0) = old"
    and b0: "\<forall>old. cachedContext (id_n (mindMapNodes travelPotential ! 0)) = Some old \<longrightarrow>
      snd (simulationNodes_part002 0 cachedContext (mindMapNodes travelPotential) ! 0) = old"
    by (elim exE conjE) (rule that, assumption+)
  have same: "prepared0 = prepared" using p p0 by simp
  have 3: "snd (prepared ! 0)
      = \<lparr>pos_x = Finite 412, pos_y = Finite 61, pos_vx = Finite 3, pos_vy = Finite (-1)\<rparr>"
    using a0 c0 same by simp
  have 4: "snd (simulationNodes_part002 0 cachedContext (mindMapNodes travelPotential) ! 0)
      = \<lparr>pos_x = Finite 412, pos_y = Finite 61, pos_vx = Finite 3, pos_vy = Finite (-1)\<rparr>"
    using b0 c0 by simp
  from p 1 3 have "\<exists>prepared.
      simulationNodes 0 cachedContext (mindMapNodes travelPotential) (mindMapLinks travelPotential)
        = Inr prepared \<and>
      snd (prepared ! 1)
        = \<lparr>pos_x = Finite 400, pos_y = Finite 180, pos_vx = Finite 0, pos_vy = Finite 0\<rparr> \<and>
      snd (prepared ! 0)
        = \<lparr>pos_x = Finite 412, pos_y = Finite 61, pos_vx = Finite 3, pos_vy = Finite (-1)\<rparr>"
    by (intro exI [of _ prepared] conjI)
  with travel_safe h1 h2 c h0 g0 c0 2 4 show ?thesis by (intro conjI)
qed

text \<open>
  In the variant a new node does not start at its tier: the root, absent from the cache,
  is prepared at height 50, while its tier is at 60 in both layouts, which is where the
  layout of src/components/MindMap.tsx prepares it.
\<close>

theorem C9_layout_warm_start_counterexample:
  "simulationNodes_part002 800 Map.empty INITIAL_NODES ! 0 =
     (hd INITIAL_NODES,
      \<lparr>pos_x = Finite 400, pos_y = Finite 50, pos_vx = Finite 0, pos_vy = Finite 0\<rparr>) \<and>
   simulationNodes 800 Map.empty INITIAL_NODES [] =
     Inr [(hd INITIAL_NODES,
           \<lparr>pos_x = Finite 400, pos_y = Finite 60, pos_vx = Finite 0, pos_vy = Finite 0\<rparr>)] \<and>
   tierY_part002 0 = 60"
proof (intro conjI)
  show "simulationNodes_part002 800 Map.empty INITIAL_NODES ! 0 =
     (hd INITIAL_NODES,
      \<lparr>pos_x = Finite 400, pos_y = Finite 50, pos_vx = Finite 0, pos_vy = Finite 0\<rparr>)"
    by (simp add: simulationNodes_part002_nth INITIAL_NODES_def containerWidth_def)
  have "safeLinks []" by (simp add: safeLinks_def)
  then show "simulationNodes 800 Map.empty INITIAL_NODES [] =
     Inr [(hd INITIAL_NODES,
           \<lparr>pos_x = Finite 400, pos_y = Finite 60, pos_vx = Finite 0, pos_vy = Finite 0\<rparr>)]"
    by (simp add: simulationNodes_safe INITIAL_NODES_def containerWidth_def bfsDistance_no_links
        depthOf_own Context_no_prototype_name tierY_def Y_SPACING_def PADDING_TOP_def)
  show "tierY_part002 0 = 60" by (simp add: tierY_part002_def)
qed


end
